theory Spec2Isabelle
  imports Main
begin

section \<open>JavaScript strings\<close>

text \<open>
  A JavaScript string is modelled as a \<^typ>\<open>string\<close>: every \<^typ>\<open>char\<close> stands for one
  UTF-16 code unit below 256 (ASCII and the Latin-1 block). Of the code units that
  \<open>String.prototype.trim\<close> and the regular-expression class \<open>\s\<close> treat as white space,
  those below 256 are TAB, LF, VT, FF, CR, SPACE and NBSP (U+00A0).
\<close>

definition is_ws :: "char \<Rightarrow> bool" where
  "is_ws c = (c \<in> set [CHR 0x09, CHR 0x0A, CHR 0x0B, CHR 0x0C, CHR 0x0D, CHR 0x20, CHR 0xA0])"

text \<open>\<open>s.trim()\<close>: leading and trailing white space removed.\<close>

definition trim :: "string \<Rightarrow> string" where
  "trim s = rev (dropWhile is_ws (rev (dropWhile is_ws s)))"

text \<open>\<open>s.split("\n")\<close>: the empty string gives one empty line, a trailing newline gives a
  final empty line.\<close>

fun split_lines :: "string \<Rightarrow> string list" where
  "split_lines [] = [[]]"
| "split_lines (c # cs) =
     (if c = CHR 0x0A then [] # split_lines cs
      else (case split_lines cs of
              [] \<Rightarrow> [[c]]
            | l # ls \<Rightarrow> (c # l) # ls))"

text \<open>\<open>lines.join("\n")\<close>.\<close>

fun join_lines :: "string list \<Rightarrow> string" where
  "join_lines [] = []"
| "join_lines [l] = l"
| "join_lines (l # m # ls) = l @ CHR 0x0A # join_lines (m # ls)"

text \<open>\<open>s.startsWith(p)\<close> and \<open>s.includes(p)\<close>.\<close>

definition starts_with :: "string \<Rightarrow> string \<Rightarrow> bool" where
  "starts_with p s = (take (length p) s = p)"

fun str_includes :: "string \<Rightarrow> string \<Rightarrow> bool" where
  "str_includes p [] = (p = [])"
| "str_includes p (c # cs) = (starts_with p (c # cs) \<or> str_includes p cs)"

text \<open>
  Matching under the \<open>i\<close> flag (without the \<open>u\<close> flag) compares canonicalised code units;
  a code unit of 128 or more never canonicalises to an ASCII one, so a pattern letter
  matches exactly its two ASCII cases and every other pattern character matches itself.
\<close>

definition ascii_lower :: "char \<Rightarrow> char" where
  "ascii_lower c =
     (case map_of (zip ''ABCDEFGHIJKLMNOPQRSTUVWXYZ'' ''abcdefghijklmnopqrstuvwxyz'') c of
        Some l \<Rightarrow> l
      | None \<Rightarrow> c)"

definition starts_with_ci :: "string \<Rightarrow> string \<Rightarrow> bool" where
  "starts_with_ci p s =
     (length p \<le> length s \<and> map ascii_lower (take (length p) s) = map ascii_lower p)"

text \<open>The class \<open>\w\<close> is \<open>[A-Za-z0-9_]\<close>; \<open>.\<close> matches everything but a line terminator.\<close>

definition is_word :: "char \<Rightarrow> bool" where
  "is_word c =
     (c \<in> set ''abcdefghijklmnopqrstuvwxyzABCDEFGHIJKLMNOPQRSTUVWXYZ0123456789_'')"

definition line_terminator :: "char \<Rightarrow> bool" where
  "line_terminator c = (c = CHR 0x0A \<or> c = CHR 0x0D)"

text \<open>A string is truthy in a condition when it is not empty.\<close>

definition truthy :: "string \<Rightarrow> bool" where
  "truthy s = (s \<noteq> [])"

section \<open>utils.ts\<close>

subsection \<open>isSetupMessage\<close>

text \<open>\<open>/^\[.*\]\s*$/\<close>: an opening bracket first; the closing bracket is the last character
  that is not white space; no line terminator between the two.\<close>

definition re_bracket_alone :: "string \<Rightarrow> bool" where
  "re_bracket_alone line =
     (case line of
        [] \<Rightarrow> False
      | c # rest \<Rightarrow>
          c = CHR ''['' \<and>
          (case dropWhile is_ws (rev rest) of
             [] \<Rightarrow> False
           | d # mid \<Rightarrow> d = CHR '']'' \<and> \<not> list_ex line_terminator mid))"

text \<open>\<open>/^>\s*$/\<close>.\<close>

definition re_empty_prompt :: "string \<Rightarrow> bool" where
  "re_empty_prompt line =
     (case line of
        [] \<Rightarrow> False
      | c # rest \<Rightarrow> c = CHR ''>'' \<and> list_all is_ws rest)"

text \<open>\<open>/^Model:\s*\w+/i\<close>: white space and word characters are disjoint, so the greedy
  \<open>\s*\<close> never has to give a character back.\<close>

definition re_model :: "string \<Rightarrow> bool" where
  "re_model line =
     (starts_with_ci ''Model:'' line \<and>
      (case dropWhile is_ws (drop (length ''Model:'') line) of
         [] \<Rightarrow> False
       | c # _ \<Rightarrow> is_word c))"

definition setupPatterns :: "(string \<Rightarrow> bool) list" where
  "setupPatterns =
     [starts_with_ci ''qwen version'',
      starts_with_ci ''loading...'',
      starts_with_ci ''initializing...'',
      starts_with_ci ''starting...'',
      re_bracket_alone,
      re_empty_prompt,
      re_model,
      starts_with_ci ''Using model:'',
      starts_with_ci ''Connected to'']"

definition isSetupMessage :: "string \<Rightarrow> bool" where
  "isSetupMessage line = list_ex (\<lambda>pattern. pattern line) setupPatterns"

subsection \<open>getQwenCodeConfig\<close>

text \<open>The permission mode is the environment variable as it is (a cast checks nothing),
  or \<open>"default"\<close> when the variable is unset or empty.\<close>

record QwenCodeConfig =
  executablePath :: string
  debug :: bool
  permissionMode :: string

definition getQwenCodeConfig :: "(string \<rightharpoonup> string) \<Rightarrow> QwenCodeConfig" where
  "getQwenCodeConfig env =
     \<lparr> executablePath =
         (case env ''ACP_PATH_TO_QWEN_CODE_EXECUTABLE'' of
            None \<Rightarrow> ''qwen''
          | Some p \<Rightarrow> if truthy p then p else ''qwen''),
       debug = (env ''ACP_DEBUG'' = Some ''true''),
       permissionMode =
         (case env ''ACP_PERMISSION_MODE'' of
            None \<Rightarrow> ''default''
          | Some m \<Rightarrow> if truthy m then m else ''default'') \<rparr>"

subsection \<open>cleanPromptText and extractPermissionMode\<close>

text \<open>
  One attempt of \<open>/\[ACP:PERMISSION:\w+\]/\<close> at the start of a string; the result is the
  text after the match. The greedy \<open>\w+\<close> takes the whole run of word characters, and a
  shorter run could only be followed by a word character, never by the bracket.
\<close>

definition match_marker :: "string \<Rightarrow> string option" where
  "match_marker s =
     (if starts_with ''[ACP:PERMISSION:'' s then
        (let t = drop (length ''[ACP:PERMISSION:'') s
         in case dropWhile is_word t of
              [] \<Rightarrow> None
            | c # rest \<Rightarrow>
                if takeWhile is_word t \<noteq> [] \<and> c = CHR '']'' then Some rest else None)
      else None)"

text \<open>\<open>text.replace(/\[ACP:PERMISSION:\w+\]/g, "")\<close>: one scan from left to right; after a
  match the scan goes on behind it, otherwise the character is kept.\<close>

function strip_markers :: "string \<Rightarrow> string" where
  "strip_markers [] = []"
| "strip_markers (c # cs) =
     (case match_marker (c # cs) of
        Some rest \<Rightarrow> strip_markers rest
      | None \<Rightarrow> c # strip_markers cs)"
  by pat_completeness auto
termination
proof (relation "measure length")
  show "wf (measure length)" by simp
next
  fix c :: char and cs rest :: string
  assume m: "match_marker (c # cs) = Some rest"
  let ?t = "drop (length ''[ACP:PERMISSION:'') (c # cs)"
  from m obtain d where d: "dropWhile is_word ?t = d # rest"
    by (auto simp: match_marker_def Let_def split: if_splits list.splits)
  have "length (dropWhile is_word ?t) \<le> length ?t"
    by (rule length_dropWhile_le)
  with d have "length rest < length ?t" by simp
  also have "length ?t \<le> length (c # cs)" by simp
  finally show "(rest, c # cs) \<in> measure length" by simp
next
  fix c :: char and cs :: string
  show "(cs, c # cs) \<in> measure length" by simp
qed

definition cleanPromptText :: "string \<Rightarrow> string" where
  "cleanPromptText text = trim (strip_markers text)"

definition extractPermissionMode :: "string \<Rightarrow> string option" where
  "extractPermissionMode text =
     (if str_includes ''[ACP:PERMISSION:ACCEPT_EDITS]'' text then Some ''acceptEdits''
      else if str_includes ''[ACP:PERMISSION:BYPASS]'' text then Some ''bypassPermissions''
      else if str_includes ''[ACP:PERMISSION:DEFAULT]'' text then Some ''default''
      else None)"

section \<open>The agent: prompt flattening and arguments\<close>

text \<open>A content block of the protocol: text, an embedded resource whose contents are text
  or a blob, or one of the other kinds (image, audio, resource link), which the agent
  skips.\<close>

datatype resource_contents =
  TextResource string string
| BlobResource string string

datatype ContentBlock =
  TextBlock string
| ResourceBlock resource_contents
| OtherBlock string

text \<open>The body of the loop of \<open>convertPromptToText\<close>.\<close>

fun append_block :: "string \<Rightarrow> ContentBlock \<Rightarrow> string" where
  "append_block text (TextBlock t) = text @ cleanPromptText t @ [CHR 0x0A]"
| "append_block text (ResourceBlock (TextResource uri t)) =
     text @ [CHR 0x0A] @ ''File: '' @ uri @ [CHR 0x0A] @ ''```'' @ [CHR 0x0A] @ t @
       [CHR 0x0A] @ ''```'' @ [CHR 0x0A]"
| "append_block text (ResourceBlock (BlobResource uri b)) = text"
| "append_block text (OtherBlock kind) = text"

definition convertPromptToText :: "ContentBlock list \<Rightarrow> string" where
  "convertPromptToText prompt = trim (foldl append_block [] prompt)"

definition buildQwenArgs :: "QwenCodeConfig \<Rightarrow> string \<Rightarrow> string list" where
  "buildQwenArgs config prompt =
     [''--prompt'', prompt] @
     (if permissionMode config = ''bypassPermissions'' then [''--yolo'']
      else if permissionMode config = ''acceptEdits'' then [''--approval-mode'', ''auto_edit'']
      else [])"

section \<open>The agent: sessions, invocations and the event loop\<close>

text \<open>
  The agent runs on one thread. A request of the client, an event of a child process or
  a timer runs to completion up to the next \<open>await\<close>; the continuations that became ready
  (here: those of \<open>handlePrompt\<close>, waiting for the promise of \<open>processWithQwenCode\<close>) are
  promise reactions and run right after it, before the next request or event. So the
  part of \<open>handlePrompt\<close> before its \<open>await\<close> (the executor of the promise included) is one
  uninterrupted run, and so is each handler. The state below is what is shared between
  such runs.

  Each activation of \<open>handlePrompt\<close> owns one \<open>AbortController\<close>, one promise and at most
  one child process; the activations are numbered in the order of the calls, and the two
  handles of a session refer to an activation by its number.
\<close>

datatype StopReason = end_turn | cancelled

datatype settlement = Pending | Resolved "string option" | Rejected string

datatype phase = Awaiting | ReportingError | Returned StopReason

record invocation =
  session_of :: string
  aborted :: bool
  abort_listener :: bool
  spawned :: bool
  wired :: bool
  killed :: bool
  exited :: bool
  spawn_failed :: bool
  timer :: bool
  outputBuffer :: string
  errorBuffer :: string
  promise :: settlement
  phase :: phase

text \<open>
  \<open>aborted\<close> is \<open>pendingPrompt.signal.aborted\<close>; \<open>abort_listener\<close> says that \<open>abortHandler\<close> is
  registered on the signal; \<open>spawned\<close> that \<open>spawn\<close> was called; \<open>wired\<close> that the handlers of
  the process (data, exit, error) are registered; \<open>killed\<close> is \<open>qwenProcess.killed\<close>; \<open>exited\<close>
  that the exit event was delivered; \<open>spawn_failed\<close> that the process could not be started
  (its error event was delivered and it has no handle); \<open>timer\<close> that the timeout is still
  to fire; \<open>phase\<close> is
  where \<open>handlePrompt\<close> stands: at the \<open>await\<close> of the promise, at the \<open>await\<close> of the error
  notification in its \<open>catch\<close> block, or returned.
\<close>

record SessionData =
  session_id :: string
  cwd :: string
  pendingPrompt :: "nat option"
  qwenProcess :: "nat option"
  conversationHistory :: "string list"

datatype effect =
  Spawn nat string "string list" string
| Kill nat
| SessionUpdate string string

text \<open>
  The effects the agent has on the outside, in order: \<open>Spawn n exe args cwd\<close> starts the
  process of activation \<open>n\<close>, \<open>Kill n\<close> is a SIGTERM delivered to it, \<open>SessionUpdate sid text\<close>
  is an \<open>agent_message_chunk\<close> notification sent to the client.
\<close>

record agent =
  config :: QwenCodeConfig
  sessions :: "string \<rightharpoonup> SessionData"
  invocations :: "invocation list"
  stderr_loops :: "(string \<times> string list) list"
  effects :: "effect list"

text \<open>
  \<open>stderr_loops\<close> holds the loops of the standard-error handler that wait for the delivery
  of a notification: the session identifier and the lines still to be looked at. A loop
  that has gone on leaves an entry without lines.
\<close>

datatype error = SessionNotFound string | NotCurrentlyGenerating

definition new_agent :: "(string \<rightharpoonup> string) \<Rightarrow> agent" where
  "new_agent env =
     \<lparr> config = getQwenCodeConfig env, sessions = Map.empty, invocations = [],
       stderr_loops = [], effects = [] \<rparr>"

subsection \<open>Access to the shared state\<close>

definition upd_session :: "string \<Rightarrow> (SessionData \<Rightarrow> SessionData) \<Rightarrow> agent \<Rightarrow> agent" where
  "upd_session sid f s =
     (case sessions s sid of
        None \<Rightarrow> s
      | Some d \<Rightarrow> s\<lparr>sessions := (sessions s)(sid \<mapsto> f d)\<rparr>)"

definition upd_inv :: "nat \<Rightarrow> (invocation \<Rightarrow> invocation) \<Rightarrow> agent \<Rightarrow> agent" where
  "upd_inv n f s =
     (if n < length (invocations s)
      then s\<lparr>invocations := (invocations s)[n := f (invocations s ! n)]\<rparr>
      else s)"

definition emit :: "effect \<Rightarrow> agent \<Rightarrow> agent" where
  "emit e s = s\<lparr>effects := effects s @ [e]\<rparr>"

text \<open>The session object that activation \<open>n\<close> closes over.\<close>

definition sid_of :: "nat \<Rightarrow> agent \<Rightarrow> string" where
  "sid_of n s = session_of (invocations s ! n)"

definition session_process :: "string \<Rightarrow> agent \<Rightarrow> nat option" where
  "session_process sid s = (case sessions s sid of None \<Rightarrow> None | Some d \<Rightarrow> qwenProcess d)"

definition session_pending :: "string \<Rightarrow> agent \<Rightarrow> nat option" where
  "session_pending sid s = (case sessions s sid of None \<Rightarrow> None | Some d \<Rightarrow> pendingPrompt d)"

definition session_history :: "string \<Rightarrow> agent \<Rightarrow> string list" where
  "session_history sid s =
     (case sessions s sid of None \<Rightarrow> [] | Some d \<Rightarrow> conversationHistory d)"

text \<open>\<open>resolve\<close> and \<open>reject\<close>: a promise is settled once; later calls do nothing.\<close>

definition settle :: "nat \<Rightarrow> settlement \<Rightarrow> agent \<Rightarrow> agent" where
  "settle n outcome s =
     upd_inv n (\<lambda>i. if promise i = Pending then i\<lparr>promise := outcome\<rparr> else i) s"

text \<open>\<open>qwenProcess.kill("SIGTERM")\<close>: the signal is delivered, and \<open>killed\<close> set, while the
  process has its handle: it was started and has not exited. Otherwise \<open>kill\<close> returns
  false and changes nothing.\<close>

definition kill :: "nat \<Rightarrow> agent \<Rightarrow> agent" where
  "kill p s =
     (if p < length (invocations s) \<and> \<not> exited (invocations s ! p) \<and>
         \<not> spawn_failed (invocations s ! p)
      then emit (Kill p) (upd_inv p (\<lambda>i. i\<lparr>killed := True\<rparr>) s)
      else s)"

text \<open>\<open>sendSessionUpdate\<close>: a failure of the client is logged and swallowed.\<close>

definition sendSessionUpdate :: "string \<Rightarrow> string \<Rightarrow> agent \<Rightarrow> agent" where
  "sendSessionUpdate sid text s = emit (SessionUpdate sid text) s"

subsection \<open>processWithQwenCode\<close>

text \<open>The filter that the source writes out three times: the lines without "[DEBUG]" and
  without "Flushing log events", joined again.\<close>

definition keep_line :: "string \<Rightarrow> bool" where
  "keep_line line =
     (\<not> str_includes ''[DEBUG]'' line \<and> \<not> str_includes ''Flushing log events'' line)"

definition drop_debug_lines :: "string \<Rightarrow> string" where
  "drop_debug_lines data = join_lines (filter keep_line (split_lines data))"

definition abortHandler :: "nat \<Rightarrow> agent \<Rightarrow> agent" where
  "abortHandler n s =
     settle n (Resolved None)
       (case session_process (sid_of n s) s of
          Some p \<Rightarrow> upd_session (sid_of n s) (\<lambda>d. d\<lparr>qwenProcess := None\<rparr>) (kill p s)
        | None \<Rightarrow> s)"

text \<open>\<open>controller.abort()\<close>: the first call sets the flag and runs the listeners; a
  second call does nothing.\<close>

definition abort :: "nat \<Rightarrow> agent \<Rightarrow> agent" where
  "abort n s =
     (if n < length (invocations s) \<and> \<not> aborted (invocations s ! n)
      then (let s1 = upd_inv n (\<lambda>i. i\<lparr>aborted := True\<rparr>) s
            in if abort_listener (invocations s ! n) then abortHandler n s1 else s1)
      else s)"

definition cleanup :: "nat \<Rightarrow> agent \<Rightarrow> agent" where
  "cleanup n s =
     upd_session (sid_of n s) (\<lambda>d. d\<lparr>qwenProcess := None\<rparr>)
       (upd_inv n (\<lambda>i. i\<lparr>abort_listener := False\<rparr>) s)"

text \<open>The executor of the promise, run inside the call. \<open>streams\<close> says whether the child
  process came with its three pipes.\<close>

definition processWithQwenCode :: "nat \<Rightarrow> string \<Rightarrow> bool \<Rightarrow> agent \<Rightarrow> agent" where
  "processWithQwenCode n prompt streams s =
     (if aborted (invocations s ! n) then settle n (Resolved None) s
      else
        (let sid = sid_of n s;
             s1 = upd_inv n (\<lambda>i. i\<lparr>abort_listener := True\<rparr>) s;
             args = buildQwenArgs (config s) prompt;
             dir = (case sessions s1 sid of None \<Rightarrow> [] | Some d \<Rightarrow> cwd d);
             s2 = emit (Spawn n (executablePath (config s)) args dir)
                    (upd_inv n (\<lambda>i. i\<lparr>spawned := True\<rparr>) s1);
             s3 = upd_session sid (\<lambda>d. d\<lparr>qwenProcess := Some n\<rparr>) s2
         in if \<not> streams
            then settle n (Rejected ''Failed to create Qwen Code process streams'') s3
            else upd_inv n (\<lambda>i. i\<lparr>wired := True, timer := True\<rparr>) s3))"

text \<open>The handlers of the child process. Each does nothing unless it is registered.\<close>

definition on_stdout :: "nat \<Rightarrow> string \<Rightarrow> agent \<Rightarrow> agent" where
  "on_stdout n data s =
     (if n < length (invocations s) \<and> wired (invocations s ! n) then
        (let s1 = upd_inv n (\<lambda>i. i\<lparr>outputBuffer := outputBuffer i @ data\<rparr>) s;
             cleanData = drop_debug_lines data
         in if truthy (trim cleanData) then sendSessionUpdate (sid_of n s) cleanData s1
            else s1)
      else s)"

definition info_line :: "string \<Rightarrow> string" where
  "info_line line = ''[INFO] '' @ line @ [CHR 0x0A]"

text \<open>
  The loop of the standard-error handler over the lines of a chunk. At the first line
  that is not blank and is kept, it sends the notification and waits for its delivery,
  with the lines behind it still to be looked at; other events can come in between.
\<close>

fun stderr_loop :: "string \<Rightarrow> string list \<Rightarrow> agent \<Rightarrow> agent" where
  "stderr_loop sid [] s = s"
| "stderr_loop sid (line # rest) s =
     (if truthy (trim line) \<and> keep_line line
      then (let s1 = sendSessionUpdate sid (info_line line) s
            in s1\<lparr>stderr_loops := stderr_loops s1 @ [(sid, rest)]\<rparr>)
      else stderr_loop sid rest s)"

definition on_stderr :: "nat \<Rightarrow> string \<Rightarrow> agent \<Rightarrow> agent" where
  "on_stderr n data s =
     (if n < length (invocations s) \<and> wired (invocations s ! n) then
        stderr_loop (sid_of n s) (split_lines data)
          (upd_inv n (\<lambda>i. i\<lparr>errorBuffer := errorBuffer i @ data\<rparr>) s)
      else s)"

text \<open>The notification that loop \<open>k\<close> waits for has been delivered (or has failed): the loop
  goes on with its remaining lines.\<close>

definition on_info_delivered :: "nat \<Rightarrow> agent \<Rightarrow> agent" where
  "on_info_delivered k s =
     (if k < length (stderr_loops s) then
        (case stderr_loops s ! k of
           (sid, rest) \<Rightarrow>
             stderr_loop sid rest (s\<lparr>stderr_loops := (stderr_loops s)[k := (sid, [])]\<rparr>))
      else s)"

text \<open>The text of \<open>${code}\<close> for an exit code that is a number or \<open>null\<close>.\<close>

function show_nat :: "nat \<Rightarrow> string" where
  "show_nat n =
     (if n < 10 then [''0123456789'' ! n]
      else show_nat (n div 10) @ [''0123456789'' ! (n mod 10)])"
  by pat_completeness auto
termination
  by (relation "measure id") auto

definition show_code :: "int option \<Rightarrow> string" where
  "show_code code =
     (case code of
        None \<Rightarrow> ''null''
      | Some c \<Rightarrow> if c < 0 then CHR ''-'' # show_nat (nat (- c)) else show_nat (nat c))"

text \<open>What the exit handler passes to \<open>resolve\<close> or \<open>reject\<close>.\<close>

definition exit_outcome ::
  "bool \<Rightarrow> int option \<Rightarrow> string option \<Rightarrow> string \<Rightarrow> string \<Rightarrow> settlement" where
  "exit_outcome is_aborted code signal out err =
     (if signal = Some ''SIGTERM'' \<or> is_aborted then Resolved None
      else if code = Some 0 then
        (let cleanOutput = trim (drop_debug_lines out)
         in if truthy cleanOutput then Resolved (Some cleanOutput)
            else Resolved (Some ''Request completed successfully.''))
      else
        (let errorMsg =
               (if truthy (trim err) then trim err
                else ''Process exited with code '' @ show_code code)
         in Rejected (''Qwen Code failed: '' @ errorMsg)))"

definition on_exit :: "nat \<Rightarrow> int option \<Rightarrow> string option \<Rightarrow> agent \<Rightarrow> agent" where
  "on_exit n code signal s =
     (if n < length (invocations s) \<and> wired (invocations s ! n) \<and> \<not> exited (invocations s ! n)
      then
        (let s1 = cleanup n (upd_inv n (\<lambda>i. i\<lparr>exited := True\<rparr>) s);
             i = invocations s1 ! n
         in settle n (exit_outcome (aborted i) code signal (outputBuffer i) (errorBuffer i)) s1)
      else s)"

definition on_error :: "nat \<Rightarrow> string \<Rightarrow> agent \<Rightarrow> agent" where
  "on_error n msg s =
     (if n < length (invocations s) \<and> wired (invocations s ! n)
      then settle n (Rejected (''Failed to start Qwen Code: '' @ msg)) (cleanup n s)
      else s)"

text \<open>What the timeout passes to \<open>resolve\<close> or \<open>reject\<close> when its guard lets it through.\<close>

definition timeout_outcome :: "string \<Rightarrow> settlement" where
  "timeout_outcome out =
     (let cleanOutput = trim (drop_debug_lines out)
      in if truthy cleanOutput then Resolved (Some cleanOutput)
         else Rejected ''Timeout waiting for response from Qwen Code'')"

definition on_timeout :: "nat \<Rightarrow> agent \<Rightarrow> agent" where
  "on_timeout n s =
     (if n < length (invocations s) \<and> timer (invocations s ! n) then
        (let s1 = upd_inv n (\<lambda>i. i\<lparr>timer := False\<rparr>) s;
             i = invocations s1 ! n
         in if \<not> aborted i \<and> \<not> killed i
            then settle n (timeout_outcome (outputBuffer i)) (cleanup n (kill n s1))
            else s1)
      else s)"

subsection \<open>handlePrompt and cancelSession\<close>

definition new_invocation :: "string \<Rightarrow> invocation" where
  "new_invocation sid =
     \<lparr> session_of = sid, aborted = False, abort_listener = False, spawned = False,
       wired = False, killed = False, exited = False, spawn_failed = False, timer = False,
       outputBuffer = [], errorBuffer = [], promise = Pending, phase = Awaiting \<rparr>"

text \<open>\<open>handlePrompt\<close> up to its \<open>await\<close>: the abort of the previous controller, the new
  controller, the user turn, and the executor of the promise.\<close>

definition handlePrompt :: "string \<Rightarrow> ContentBlock list \<Rightarrow> bool \<Rightarrow> agent \<Rightarrow> agent" where
  "handlePrompt sid blocks streams s =
     (let s1 = (case session_pending sid s of Some m \<Rightarrow> abort m s | None \<Rightarrow> s);
          n = length (invocations s1);
          s2 = s1\<lparr>invocations := invocations s1 @ [new_invocation sid]\<rparr>;
          s3 = upd_session sid (\<lambda>d. d\<lparr>pendingPrompt := Some n\<rparr>) s2;
          promptText = convertPromptToText blocks;
          s4 = upd_session sid
                 (\<lambda>d. d\<lparr>conversationHistory := conversationHistory d @ [''User: '' @ promptText]\<rparr>)
                 s3
      in processWithQwenCode n promptText streams s4)"

text \<open>The \<open>return\<close> of \<open>handlePrompt\<close> with its \<open>finally\<close> block.\<close>

definition finish :: "nat \<Rightarrow> StopReason \<Rightarrow> agent \<Rightarrow> agent" where
  "finish n reason s =
     upd_session (sid_of n s) (\<lambda>d. d\<lparr>pendingPrompt := None\<rparr>)
       (upd_inv n (\<lambda>i. i\<lparr>phase := Returned reason\<rparr>) s)"

text \<open>\<open>handlePrompt\<close> after its \<open>await\<close>, once the promise is settled: the rest of the \<open>try\<close>
  block when it was resolved, the \<open>catch\<close> block when it was rejected.\<close>

definition resume :: "nat \<Rightarrow> agent \<Rightarrow> agent" where
  "resume n s =
     (if n < length (invocations s) \<and> phase (invocations s ! n) = Awaiting then
        (case promise (invocations s ! n) of
           Pending \<Rightarrow> s
         | Resolved response \<Rightarrow>
             finish n end_turn
               (case response of
                  None \<Rightarrow> s
                | Some r \<Rightarrow>
                    if truthy r
                    then upd_session (sid_of n s)
                           (\<lambda>d. d\<lparr>conversationHistory :=
                                    conversationHistory d @ [''Assistant: '' @ r]\<rparr>) s
                    else s)
         | Rejected msg \<Rightarrow>
             if aborted (invocations s ! n) then finish n cancelled s
             else sendSessionUpdate (sid_of n s) (''Error: '' @ msg @ [CHR 0x0A])
                    (upd_inv n (\<lambda>i. i\<lparr>phase := ReportingError\<rparr>) s))
      else s)"

text \<open>The notification of the \<open>catch\<close> block has been delivered (or has failed).\<close>

definition on_delivered :: "nat \<Rightarrow> agent \<Rightarrow> agent" where
  "on_delivered n s =
     (if n < length (invocations s) \<and> phase (invocations s ! n) = ReportingError
      then finish n end_turn s
      else s)"

definition cancelSession :: "string \<Rightarrow> agent \<Rightarrow> error + agent" where
  "cancelSession sid s =
     (case session_pending sid s of
        None \<Rightarrow> Inl NotCurrentlyGenerating
      | Some m \<Rightarrow>
          Inr (let s1 = abort m s;
                   s2 = upd_session sid (\<lambda>d. d\<lparr>pendingPrompt := None\<rparr>) s1
               in case session_process sid s2 of
                    Some p \<Rightarrow> upd_session sid (\<lambda>d. d\<lparr>qwenProcess := None\<rparr>) (kill p s2)
                  | None \<Rightarrow> s2))"

subsection \<open>The requests of the client\<close>

definition newSession :: "string \<Rightarrow> string \<Rightarrow> agent \<Rightarrow> agent" where
  "newSession sid dir s =
     s\<lparr>sessions := (sessions s)(sid \<mapsto>
         \<lparr> session_id = sid, cwd = dir, pendingPrompt = None, qwenProcess = None,
           conversationHistory = [] \<rparr>)\<rparr>"

definition cancel :: "string \<Rightarrow> agent \<Rightarrow> error + agent" where
  "cancel sid s =
     (case sessions s sid of
        None \<Rightarrow> Inl (SessionNotFound sid)
      | Some d \<Rightarrow> cancelSession sid s)"

definition prompt :: "string \<Rightarrow> ContentBlock list \<Rightarrow> bool \<Rightarrow> agent \<Rightarrow> error + agent" where
  "prompt sid blocks streams s =
     (case sessions s sid of
        None \<Rightarrow> Inl (SessionNotFound sid)
      | Some d \<Rightarrow> Inr (handlePrompt sid blocks streams s))"

subsection \<open>The event loop\<close>

text \<open>
  What can happen to the agent: a request of the client (\<open>NewSession\<close> with the identifier
  that \<open>randomUUID\<close> draws, \<open>Prompt\<close>, \<open>Cancel\<close>), an event of the child process of an
  activation, its timeout, the delivery of the error notification that its \<open>catch\<close>
  block awaits, or the delivery of a notification that a loop of the standard-error
  handler awaits. \<open>SpawnFailed\<close> is the error event of a process that could not be started:
  it has no handle, and no exit event follows; \<open>ProcessError\<close> is any other error event. A request that throws leaves the state as it is. \<open>randomUUID\<close> does not
  draw an identifier twice, so \<open>NewSession\<close> with a registered identifier does not occur
  and is left without effect. An exit event carries either the exit code or the name of
  the signal that ended the process, the other of the two being \<open>null\<close>.
\<close>

datatype exit_status = ExitCode int | ExitSignal string

definition code_of :: "exit_status \<Rightarrow> int option" where
  "code_of st = (case st of ExitCode c \<Rightarrow> Some c | ExitSignal sig \<Rightarrow> None)"

definition signal_of :: "exit_status \<Rightarrow> string option" where
  "signal_of st = (case st of ExitCode c \<Rightarrow> None | ExitSignal sig \<Rightarrow> Some sig)"

datatype event =
  NewSession string string
| Prompt string "ContentBlock list" bool
| Cancel string
| StdoutData nat string
| StderrData nat string
| Exit nat exit_status
| SpawnFailed nat string
| ProcessError nat string
| Timeout nat
| Delivered nat
| InfoDelivered nat

fun deliver :: "event \<Rightarrow> agent \<Rightarrow> agent" where
  "deliver (NewSession sid dir) s =
     (case sessions s sid of None \<Rightarrow> newSession sid dir s | Some d \<Rightarrow> s)"
| "deliver (Prompt sid blocks streams) s =
     (case prompt sid blocks streams s of Inl e \<Rightarrow> s | Inr s' \<Rightarrow> s')"
| "deliver (Cancel sid) s = (case cancel sid s of Inl e \<Rightarrow> s | Inr s' \<Rightarrow> s')"
| "deliver (StdoutData n data) s = on_stdout n data s"
| "deliver (StderrData n data) s = on_stderr n data s"
| "deliver (Exit n st) s = on_exit n (code_of st) (signal_of st) s"
| "deliver (SpawnFailed n msg) s =
     on_error n msg (upd_inv n (\<lambda>i. i\<lparr>spawn_failed := True\<rparr>) s)"
| "deliver (ProcessError n msg) s = on_error n msg s"
| "deliver (Timeout n) s = on_timeout n s"
| "deliver (Delivered n) s = on_delivered n s"
| "deliver (InfoDelivered k) s = on_info_delivered k s"

text \<open>The continuations that are ready run before the next event, oldest first.\<close>

definition drain :: "agent \<Rightarrow> agent" where
  "drain s = foldl (\<lambda>t n. resume n t) s [0..<length (invocations s)]"

definition step :: "event \<Rightarrow> agent \<Rightarrow> agent" where
  "step e s = drain (deliver e s)"

definition run :: "event list \<Rightarrow> agent \<Rightarrow> agent" where
  "run es s = foldl (\<lambda>t e. step e t) s es"

text \<open>The states the agent can be in between two events.\<close>

inductive reachable :: "agent \<Rightarrow> bool" where
  start: "reachable (new_agent env)"
| next_event: "reachable s \<Longrightarrow> reachable (step e s)"

section \<open>What reaches the client, and the invariants of the event loop\<close>

text \<open>The texts of the notifications that one event makes the agent send.\<close>

fun update_texts :: "effect list \<Rightarrow> string list" where
  "update_texts [] = []"
| "update_texts (SessionUpdate sid t # es) = t # update_texts es"
| "update_texts (e # es) = update_texts es"

definition surfaced :: "event \<Rightarrow> agent \<Rightarrow> string list" where
  "surfaced e s = update_texts (drop (length (effects s)) (effects (deliver e s)))"

text \<open>The argument lists of the processes that one event makes the agent spawn.\<close>

fun spawn_args :: "effect list \<Rightarrow> string list list" where
  "spawn_args [] = []"
| "spawn_args (Spawn n exe args dir # es) = args # spawn_args es"
| "spawn_args (e # es) = spawn_args es"

definition spawned :: "event \<Rightarrow> agent \<Rightarrow> string list list" where
  "spawned e s = spawn_args (drop (length (effects s)) (effects (deliver e s)))"

text \<open>
  A marker spans the point between \<open>a\<close> and \<open>b\<close> when the marker pattern matches in \<open>a @ b\<close>
  from a position inside \<open>a\<close> and the match ends inside \<open>b\<close>.
\<close>

fun spans :: "string \<Rightarrow> string \<Rightarrow> bool" where
  "spans [] b = False"
| "spans (c # cs) b =
     ((case match_marker (c # cs @ b) of
         None \<Rightarrow> False
       | Some rest \<Rightarrow> length rest < length b) \<or>
      spans cs b)"

text \<open>The working directory of a session.\<close>

definition session_cwd :: "string \<Rightarrow> agent \<Rightarrow> string option" where
  "session_cwd sid s = map_option cwd (sessions s sid)"

text \<open>
  An activation whose promise is pending is \<open>live\<close>: its abort handler is registered, it
  is neither aborted nor killed, the handlers of its process are registered, the process
  has not exited, the timeout is still to fire, and \<open>handlePrompt\<close> waits for the promise.
\<close>

definition live :: "invocation \<Rightarrow> bool" where
  "live i = (abort_listener i \<and> \<not> aborted i \<and> wired i \<and> \<not> exited i \<and> \<not> killed i \<and> timer i \<and>
             phase i = Awaiting)"

text \<open>What holds of an activation between two events (\<open>inv_ok\<close>) and after the handler of
  an event, before the ready continuations have run (\<open>mid_ok\<close>).\<close>

definition mid_ok :: "invocation \<Rightarrow> bool" where
  "mid_ok i =
     (case promise i of
        Pending \<Rightarrow> live i
      | Resolved r \<Rightarrow> phase i \<noteq> Returned cancelled
      | Rejected m \<Rightarrow> phase i \<noteq> Returned cancelled \<and> (phase i = Awaiting \<longrightarrow> \<not> aborted i))"

definition inv_ok :: "invocation \<Rightarrow> bool" where
  "inv_ok i =
     (case promise i of
        Pending \<Rightarrow> live i
      | Resolved r \<Rightarrow> phase i \<noteq> Awaiting \<and> phase i \<noteq> Returned cancelled
      | Rejected m \<Rightarrow> phase i \<noteq> Awaiting \<and> phase i \<noteq> Returned cancelled)"

text \<open>
  The handles of a session refer to activations of that session, and a process handle
  stands beside the cancellation handle of the same activation or beside none.
\<close>

definition handles_ok :: "string \<Rightarrow> SessionData \<Rightarrow> string list \<Rightarrow> bool" where
  "handles_ok sid d owners =
     ((case pendingPrompt d of
         None \<Rightarrow> True
       | Some m \<Rightarrow> m < length owners \<and> owners ! m = sid) \<and>
      (case qwenProcess d of
         None \<Rightarrow> True
       | Some p \<Rightarrow> p < length owners \<and> owners ! p = sid \<and>
                  (pendingPrompt d = None \<or> pendingPrompt d = Some p)))"

definition owners :: "agent \<Rightarrow> string list" where
  "owners s = map session_of (invocations s)"

definition sess_ok :: "agent \<Rightarrow> bool" where
  "sess_ok s = (\<forall>sid d. sessions s sid = Some d \<longrightarrow> handles_ok sid d (owners s))"

definition agent_ok :: "agent \<Rightarrow> bool" where
  "agent_ok s = (list_all inv_ok (invocations s) \<and> sess_ok s)"

definition agent_mid_ok :: "agent \<Rightarrow> bool" where
  "agent_mid_ok s = (list_all mid_ok (invocations s) \<and> sess_ok s)"

text \<open>What the continuation of \<open>handlePrompt\<close> does to its activation record.\<close>

definition resumed :: "invocation \<Rightarrow> invocation" where
  "resumed i =
     (if phase i = Awaiting then
        (case promise i of
           Pending \<Rightarrow> i
         | Resolved r \<Rightarrow> i\<lparr>phase := Returned end_turn\<rparr>
         | Rejected m \<Rightarrow>
             if aborted i then i\<lparr>phase := Returned cancelled\<rparr> else i\<lparr>phase := ReportingError\<rparr>)
      else i)"

section \<open>Prompt flattening and argument building\<close>

text \<open>
  C8: flattening the prompt made of the text segment "Fix bug" and the embedded resource
  with uri "file:///a.ts" and inline text "const x=1;" gives exactly the text
  "Fix bug", an empty line, "File: file:///a.ts", a code fence, "const x=1;" and a
  closing code fence, with no trailing newline.
\<close>

theorem convertPromptToText_fix_bug:
  "convertPromptToText
     [TextBlock ''Fix bug'', ResourceBlock (TextResource ''file:///a.ts'' ''const x=1;'')]
   = ''Fix bug\<newline>\<newline>File: file:///a.ts\<newline>```\<newline>const x=1;\<newline>```''"
  by code_simp

text \<open>What \<open>buildQwenArgs\<close> builds in each of the three modes, for every prompt text.\<close>

lemma buildQwenArgs_modes:
  "buildQwenArgs (cfg\<lparr>permissionMode := ''default''\<rparr>) text = [''--prompt'', text] \<and>
   buildQwenArgs (cfg\<lparr>permissionMode := ''bypassPermissions''\<rparr>) text
     = [''--prompt'', text, ''--yolo''] \<and>
   buildQwenArgs (cfg\<lparr>permissionMode := ''acceptEdits''\<rparr>) text
     = [''--prompt'', text, ''--approval-mode'', ''auto_edit'']"
  by (simp add: buildQwenArgs_def)

subsection \<open>Permission markers in the prompt\<close>

lemma not_word_brackets: "\<not> is_word (CHR '']'')" "\<not> is_word (CHR ''['')"
  by (simp_all add: is_word_def)

lemma match_marker_marker:
  assumes "w \<noteq> []" "list_all is_word w"
  shows "match_marker (''[ACP:PERMISSION:'' @ w @ CHR '']'' # b) = Some b"
proof -
  have d: "dropWhile is_word (w @ CHR '']'' # b) = CHR '']'' # b"
    using assms(2) by (simp add: list_all_iff not_word_brackets)
  have t: "takeWhile is_word (w @ CHR '']'' # b) = w"
    using assms(2) by (simp add: list_all_iff not_word_brackets)
  show ?thesis using assms(1) by (simp add: match_marker_def starts_with_def d t)
qed

lemma match_marker_append:
  assumes "match_marker u = Some r"
  shows "match_marker (u @ z) = Some (r @ z)"
proof -
  let ?lit = "''[ACP:PERMISSION:''"
  let ?t = "drop (length ?lit) u"
  from assms have st: "starts_with ?lit u"
    by (auto simp: match_marker_def split: if_splits)
  then have len: "length ?lit \<le> length u"
    unfolding starts_with_def by (metis length_take min.cobounded1)
  from assms st have d: "dropWhile is_word ?t = CHR '']'' # r" and tw: "takeWhile is_word ?t \<noteq> []"
    by (auto simp: match_marker_def Let_def split: if_splits list.splits)
  have "CHR '']'' \<in> set ?t" using d by (metis list.set_intros(1) set_dropWhileD)
  then have d': "dropWhile is_word (?t @ z) = CHR '']'' # r @ z"
    and tw': "takeWhile is_word (?t @ z) = takeWhile is_word ?t"
    using d by (simp_all add: not_word_brackets)
  have st': "starts_with ?lit (u @ z)"
    using st len unfolding starts_with_def by simp
  have dr: "drop (length ?lit) (u @ z) = ?t @ z" using len by simp
  show ?thesis
    using st' tw
    by (simp only: match_marker_def Let_def dr d' tw' if_True list.case) simp
qed

lemma bracket_only_first:
  assumes "u \<noteq> []" "starts_with ''[ACP:PERMISSION:'' (u @ CHR ''['' # y)"
  shows "length ''[ACP:PERMISSION:'' \<le> length u"
proof (rule ccontr)
  let ?lit = "''[ACP:PERMISSION:''"
  assume "\<not> length ?lit \<le> length u"
  then have l: "length u < length ?lit" by simp
  from assms(1) obtain c u' where u: "u = c # u'" by (cases u) auto
  have "take (length ?lit) (u @ CHR ''['' # y) = u @ take (length ?lit - length u) (CHR ''['' # y)"
    using l by simp
  also have "\<dots> = u @ CHR ''['' # take (length ?lit - length u - 1) y"
    using l by (cases "length ?lit - length u") simp_all
  finally have "?lit = c # u' @ CHR ''['' # take (length ?lit - length u - 1) y"
    using assms(2) u unfolding starts_with_def by simp
  then have "tl ?lit = u' @ CHR ''['' # take (length ?lit - length u - 1) y"
    by (metis list.sel(3))
  then have "CHR ''['' \<in> set (tl ?lit)"
    by (metis in_set_conv_decomp)
  then show False by simp
qed

lemma match_marker_none_append:
  assumes "u \<noteq> []" "match_marker u = None"
  shows "match_marker (u @ CHR ''['' # y) = None"
proof (cases "starts_with ''[ACP:PERMISSION:'' (u @ CHR ''['' # y)")
  case False
  then show ?thesis by (simp add: match_marker_def)
next
  case True
  let ?lit = "''[ACP:PERMISSION:''"
  let ?t = "drop (length ?lit) u"
  from True have len: "length ?lit \<le> length u"
    by (rule bracket_only_first [OF assms(1)])
  then have st: "starts_with ?lit u" using True unfolding starts_with_def by simp
  have dr: "drop (length ?lit) (u @ CHR ''['' # y) = ?t @ CHR ''['' # y" using len by simp
  show ?thesis
  proof (cases "dropWhile is_word ?t")
    case Nil
    then have "\<forall>x \<in> set ?t. is_word x" by simp
    then have "dropWhile is_word (?t @ CHR ''['' # y) = CHR ''['' # y"
      by (simp add: not_word_brackets)
    then show ?thesis
      by (simp only: match_marker_def Let_def dr list.case) simp
  next
    case (Cons c rest)
    then have "c \<in> set ?t" "\<not> is_word c"
      by (metis list.set_intros(1) set_dropWhileD, metis hd_dropWhile list.distinct(1) list.sel(1))
    then have d': "dropWhile is_word (?t @ CHR ''['' # y) = c # rest @ CHR ''['' # y"
      and tw': "takeWhile is_word (?t @ CHR ''['' # y) = takeWhile is_word ?t"
      using Cons by simp_all
    from assms(2) st Cons have "\<not> (takeWhile is_word ?t \<noteq> [] \<and> c = CHR '']'')"
      by (auto simp: match_marker_def Let_def split: if_splits)
    then show ?thesis
      by (simp only: match_marker_def Let_def dr d' tw' list.case) auto
  qed
qed

lemma strip_markers_before_bracket:
  "strip_markers (a @ CHR ''['' # y) = strip_markers a @ strip_markers (CHR ''['' # y)"
proof -
  define z where "z = CHR ''['' # y"
  have "strip_markers (a @ z) = strip_markers a @ strip_markers z"
  proof (induction a rule: strip_markers.induct)
    case 1
    show ?case by simp
  next
    case (2 c cs)
    show ?case
    proof (cases "match_marker (c # cs)")
      case None
      then have "match_marker ((c # cs) @ z) = None"
        unfolding z_def by (intro match_marker_none_append) simp_all
      then show ?thesis using None 2 by simp
    next
      case (Some r)
      then have "match_marker ((c # cs) @ z) = Some (r @ z)"
        by (rule match_marker_append)
      then show ?thesis using Some 2 by simp
    qed
  qed
  then show ?thesis by (simp add: z_def)
qed

lemma strip_markers_marker:
  assumes "w \<noteq> []" "list_all is_word w"
  shows "strip_markers (''[ACP:PERMISSION:'' @ w @ CHR '']'' # b) = strip_markers b"
  using match_marker_marker [OF assms, of b] by simp

lemma strip_markers_insert:
  assumes "w \<noteq> []" "list_all is_word w"
  shows "strip_markers (a @ ''[ACP:PERMISSION:'' @ w @ '']'' @ b) = strip_markers a @ strip_markers b"
proof -
  have "strip_markers (a @ CHR ''['' # (''ACP:PERMISSION:'' @ w @ '']'' @ b)) =
        strip_markers a @ strip_markers (CHR ''['' # (''ACP:PERMISSION:'' @ w @ '']'' @ b))"
    by (rule strip_markers_before_bracket)
  then show ?thesis using strip_markers_marker [OF assms, of b] by simp
qed

lemma dropWhile_append_split:
  assumes "dropWhile P (xs @ ys) = d # r" "length ys \<le> length r"
  shows "\<exists>r'. r = r' @ ys \<and> dropWhile P xs = d # r' \<and> takeWhile P (xs @ ys) = takeWhile P xs"
  using assms
proof (induction xs)
  case Nil
  have "length (dropWhile P ys) \<le> length ys" by (rule length_dropWhile_le)
  with Nil show ?case by simp
next
  case (Cons x xs)
  then show ?case by (cases "P x") auto
qed

lemma match_marker_split:
  assumes "match_marker (u @ z) = Some r" "length z \<le> length r"
  shows "\<exists>r'. r = r' @ z \<and> match_marker u = Some r'"
proof -
  let ?lit = "''[ACP:PERMISSION:''"
  from assms(1) have st: "starts_with ?lit (u @ z)"
    by (auto simp: match_marker_def split: if_splits)
  from assms(1) st have d: "dropWhile is_word (drop (length ?lit) (u @ z)) = CHR '']'' # r"
    and tw: "takeWhile is_word (drop (length ?lit) (u @ z)) \<noteq> []"
    by (auto simp: match_marker_def Let_def split: if_splits list.splits)
  have "length (dropWhile is_word (drop (length ?lit) (u @ z))) \<le> length (drop (length ?lit) (u @ z))"
    by (rule length_dropWhile_le)
  with d assms(2) have len: "length ?lit < length u" by simp
  then have dr: "drop (length ?lit) (u @ z) = drop (length ?lit) u @ z" by simp
  from dropWhile_append_split [OF d [unfolded dr] assms(2)]
  obtain r' where r': "r = r' @ z" "dropWhile is_word (drop (length ?lit) u) = CHR '']'' # r'"
    "takeWhile is_word (drop (length ?lit) u @ z) = takeWhile is_word (drop (length ?lit) u)"
    by blast
  have st': "starts_with ?lit u" using st len unfolding starts_with_def by simp
  have tw': "takeWhile is_word (drop (length ?lit) u) \<noteq> []" using tw r'(3) dr by simp
  have "match_marker u = Some r'"
    using st' tw' by (simp only: match_marker_def Let_def r'(2) if_True list.case) simp
  with r'(1) show ?thesis by blast
qed

lemma dropWhile_rest: "dropWhile P t = d # r \<Longrightarrow> \<exists>k. r = drop k t"
proof -
  assume d: "dropWhile P t = d # r"
  have "dropWhile P t = drop (length (takeWhile P t)) t" by (rule dropWhile_eq_drop)
  with d have "drop (length (takeWhile P t)) t = d # r" by simp
  then have "drop (Suc (length (takeWhile P t))) t = r"
    by (metis drop_Suc list.sel(3) tl_drop)
  then show ?thesis by blast
qed

lemma match_marker_rest: "match_marker u = Some r \<Longrightarrow> \<exists>k. r = drop k u"
proof -
  assume m: "match_marker u = Some r"
  define t where "t = drop (length ''[ACP:PERMISSION:'') u"
  from m have "dropWhile is_word t = CHR '']'' # r"
    unfolding t_def by (auto simp: match_marker_def Let_def split: if_splits list.splits)
  from dropWhile_rest [OF this] obtain k where "r = drop k t" ..
  then have "r = drop (k + length ''[ACP:PERMISSION:'') u"
    unfolding t_def by (simp only: drop_drop)
  then show ?thesis by blast
qed

lemma spans_drop: "spans (drop k u) b \<Longrightarrow> spans u b"
proof (induction u arbitrary: k)
  case Nil
  then show ?case by simp
next
  case (Cons c cs)
  show ?case
  proof (cases k)
    case 0
    with Cons.prems show ?thesis by simp
  next
    case (Suc j)
    with Cons.prems have "spans (drop j cs) b" by simp
    then have "spans cs b" by (rule Cons.IH)
    then show ?thesis by simp
  qed
qed

lemma strip_markers_no_span:
  "\<not> spans a b \<Longrightarrow> strip_markers (a @ b) = strip_markers a @ strip_markers b"
proof (induction a rule: strip_markers.induct)
  case 1
  show ?case by simp
next
  case (2 c cs)
  show ?case
  proof (cases "match_marker ((c # cs) @ b)")
    case None
    have n: "match_marker (c # cs) = None"
    proof (cases "match_marker (c # cs)")
      case (Some r')
      then have "match_marker ((c # cs) @ b) = Some (r' @ b)" by (rule match_marker_append)
      with None show ?thesis by simp
    qed simp
    have "\<not> spans cs b" using "2.prems" by simp
    with n 2 have "strip_markers (cs @ b) = strip_markers cs @ strip_markers b" by simp
    with n None show ?thesis by simp
  next
    case (Some r)
    with "2.prems" have "length b \<le> length r" by simp
    with Some obtain r' where r': "r = r' @ b" "match_marker (c # cs) = Some r'"
      using match_marker_split by blast
    from r'(2) obtain k where "r' = drop k (c # cs)" using match_marker_rest by blast
    with "2.prems" have "\<not> spans r' b" using spans_drop by blast
    with r'(2) 2 have "strip_markers (r' @ b) = strip_markers r' @ strip_markers b" by simp
    with Some r' show ?thesis by simp
  qed
qed

lemma convertPromptToText_cong:
  "cleanPromptText t1 = cleanPromptText t2 \<Longrightarrow>
   convertPromptToText (pre @ TextBlock t1 # post) = convertPromptToText (pre @ TextBlock t2 # post)"
  by (simp add: convertPromptToText_def)


lemma config_upd_inv: "config (upd_inv n f s) = config s"
  by (simp add: upd_inv_def)

lemma config_upd_session: "config (upd_session sid f s) = config s"
  by (simp add: upd_session_def split: option.splits)

lemma config_emit: "config (emit e s) = config s"
  by (simp add: emit_def)

lemma config_settle: "config (settle n outcome s) = config s"
  by (simp add: settle_def config_upd_inv)

lemma config_kill: "config (kill p s) = config s"
  by (simp add: kill_def config_emit config_upd_inv)

lemma config_cleanup: "config (cleanup n s) = config s"
  by (simp add: cleanup_def config_upd_session config_upd_inv)

lemma config_sendSessionUpdate: "config (sendSessionUpdate sid t s) = config s"
  by (simp add: sendSessionUpdate_def config_emit)

lemmas configs = config_upd_inv config_upd_session config_emit config_settle config_kill
  config_cleanup config_sendSessionUpdate

lemma config_abort: "config (abort n s) = config s"
  by (simp add: abort_def abortHandler_def Let_def configs split: option.splits)

lemma config_stderr_loop: "config (stderr_loop sid ls s) = config s"
  by (induction ls arbitrary: s) (simp_all add: Let_def configs)

lemma config_handlePrompt: "config (handlePrompt sid blocks streams s) = config s"
  by (simp add: handlePrompt_def processWithQwenCode_def Let_def configs config_abort
        split: option.splits)

lemma config_deliver: "config (deliver e s) = config s"
proof (cases e)
  case (NewSession sid dir)
  then show ?thesis by (simp add: newSession_def split: option.splits)
next
  case (Prompt sid blocks streams)
  then show ?thesis by (simp add: prompt_def config_handlePrompt split: option.splits)
next
  case (Cancel sid)
  then show ?thesis
    by (simp add: cancel_def cancelSession_def Let_def configs config_abort split: option.splits)
next
  case (StdoutData n data)
  then show ?thesis by (simp add: on_stdout_def Let_def configs)
next
  case (StderrData n data)
  then show ?thesis by (simp add: on_stderr_def configs config_stderr_loop)
next
  case (Exit n st)
  then show ?thesis by (simp add: on_exit_def Let_def configs)
next
  case (SpawnFailed n msg)
  then show ?thesis by (simp add: on_error_def configs)
next
  case (ProcessError n msg)
  then show ?thesis by (simp add: on_error_def configs)
next
  case (Timeout n)
  then show ?thesis by (simp add: on_timeout_def Let_def configs)
next
  case (Delivered n)
  then show ?thesis by (simp add: on_delivered_def finish_def configs)
next
  case (InfoDelivered k)
  then show ?thesis
    by (simp add: on_info_delivered_def config_stderr_loop split: prod.splits)
qed

lemma config_resume: "config (resume n s) = config s"
  by (simp add: resume_def finish_def configs split: settlement.splits option.splits)

lemma config_foldl_resume: "config (foldl (\<lambda>t n. resume n t) s ns) = config s"
  by (induction ns arbitrary: s) (simp_all add: config_resume)

lemma config_step: "config (step e s) = config s"
  by (simp add: step_def drain_def config_foldl_resume config_deliver)

text \<open>
  C10 as stated fails: the two one-segment prompts below differ only in the marker
  \<open>[ACP:PERMISSION:X]\<close>, embedded in the first one between "[ACP:PERM" and
  "ISSION:BYPASS] go". The scan removes it and goes on behind it, so the marker that its
  removal completes stays in the text: the two argument lists differ.
\<close>

theorem nested_marker_changes_arguments:
  "''[ACP:PERM[ACP:PERMISSION:X]ISSION:BYPASS] go''
     = ''[ACP:PERM'' @ ''[ACP:PERMISSION:X]'' @ ''ISSION:BYPASS] go'' \<and>
   ''[ACP:PERMISSION:BYPASS] go'' = ''[ACP:PERM'' @ ''ISSION:BYPASS] go'' \<and>
   buildQwenArgs (getQwenCodeConfig Map.empty)
     (convertPromptToText [TextBlock ''[ACP:PERM[ACP:PERMISSION:X]ISSION:BYPASS] go''])
     = [''--prompt'', ''[ACP:PERMISSION:BYPASS] go''] \<and>
   buildQwenArgs (getQwenCodeConfig Map.empty)
     (convertPromptToText [TextBlock ''[ACP:PERMISSION:BYPASS] go''])
     = [''--prompt'', ''go'']"
  by code_simp

section \<open>What the stream handlers surface\<close>


lemma split_lines_not_Nil: "split_lines s \<noteq> []"
  by (induction s) (auto split: list.splits)

lemma split_lines_no_newline: "l \<in> set (split_lines s) \<Longrightarrow> CHR 0x0A \<notin> set l"
proof (induction s arbitrary: l)
  case Nil
  then show ?case by simp
next
  case (Cons c cs)
  show ?case
  proof (cases "c = CHR 0x0A")
    case True
    then show ?thesis using Cons by auto
  next
    case False
    obtain k ks where ks: "split_lines cs = k # ks"
      using split_lines_not_Nil [of cs] by (cases "split_lines cs") auto
    with False Cons.prems have "l = c # k \<or> l \<in> set ks" by simp
    then show ?thesis
    proof
      assume "l = c # k"
      moreover have "CHR 0x0A \<notin> set k" using Cons.IH [of k] ks by simp
      ultimately show ?thesis using False by simp
    next
      assume "l \<in> set ks"
      then show ?thesis using Cons.IH [of l] ks by simp
    qed
  qed
qed

lemma split_lines_plain: "CHR 0x0A \<notin> set l \<Longrightarrow> split_lines l = [l]"
  by (induction l) auto

lemma split_lines_append:
  "CHR 0x0A \<notin> set l \<Longrightarrow> split_lines (l @ CHR 0x0A # r) = l # split_lines r"
  by (induction l) auto

lemma split_join:
  "ls \<noteq> [] \<Longrightarrow> list_all (\<lambda>l. CHR 0x0A \<notin> set l) ls \<Longrightarrow> split_lines (join_lines ls) = ls"
proof (induction ls rule: join_lines.induct)
  case 1
  then show ?case by simp
next
  case (2 l)
  then show ?case by (simp add: split_lines_plain)
next
  case (3 l m ls)
  then show ?case by (simp add: split_lines_append)
qed

lemma lines_of_drop_debug_lines:
  assumes "drop_debug_lines data \<noteq> []"
  shows "split_lines (drop_debug_lines data) = filter keep_line (split_lines data)"
proof -
  let ?ls = "filter keep_line (split_lines data)"
  have ne: "?ls \<noteq> []" using assms by (auto simp: drop_debug_lines_def)
  have "list_all (\<lambda>l. CHR 0x0A \<notin> set l) ?ls"
    by (auto simp: list_all_iff dest: split_lines_no_newline)
  with ne show ?thesis unfolding drop_debug_lines_def by (rule split_join)
qed

lemma effects_upd_inv: "effects (upd_inv n f s) = effects s"
  by (simp add: upd_inv_def)

lemma effects_sendSessionUpdate:
  "effects (sendSessionUpdate sid t s) = effects s @ [SessionUpdate sid t]"
  by (simp add: sendSessionUpdate_def emit_def)

lemma trim_Nil: "trim [] = []"
  by (simp add: trim_def)

lemma surfaced_stdout:
  "surfaced (StdoutData n data) s =
     (if n < length (invocations s) \<and> wired (invocations s ! n) \<and>
         trim (drop_debug_lines data) \<noteq> []
      then [drop_debug_lines data] else [])"
  by (simp add: surfaced_def on_stdout_def Let_def truthy_def effects_upd_inv
        effects_sendSessionUpdate)

lemma update_texts_append: "update_texts (xs @ ys) = update_texts xs @ update_texts ys"
  by (induction xs rule: update_texts.induct) simp_all

lemma stderr_loop_effects:
  "\<exists>us. effects (stderr_loop sid ls s) = effects s @ us \<and>
        (\<forall>t \<in> set (update_texts us). \<exists>l \<in> set ls. keep_line l \<and> t = info_line l)"
proof (induction ls arbitrary: s)
  case Nil
  show ?case by simp
next
  case (Cons line rest)
  show ?case
  proof (cases "truthy (trim line) \<and> keep_line line")
    case True
    then have "effects (stderr_loop sid (line # rest) s) =
        effects s @ [SessionUpdate sid (info_line line)]"
      by (simp add: Let_def effects_sendSessionUpdate)
    with True show ?thesis by simp
  next
    case False
    with Cons [of s] show ?thesis by auto
  qed
qed

lemma surfaced_stderr:
  assumes "t \<in> set (surfaced (StderrData n data) s)"
  shows "\<exists>l \<in> set (split_lines data). keep_line l \<and> t = info_line l"
proof (cases "n < length (invocations s) \<and> wired (invocations s ! n)")
  case False
  with assms show ?thesis by (auto simp: surfaced_def on_stderr_def)
next
  case True
  let ?s1 = "upd_inv n (\<lambda>i. i\<lparr>errorBuffer := errorBuffer i @ data\<rparr>) s"
  obtain us where us: "effects (stderr_loop (sid_of n s) (split_lines data) ?s1) = effects ?s1 @ us"
    "\<forall>t \<in> set (update_texts us). \<exists>l \<in> set (split_lines data). keep_line l \<and> t = info_line l"
    using stderr_loop_effects by blast
  from True us(1) have "surfaced (StderrData n data) s = update_texts us"
    by (simp add: surfaced_def on_stderr_def effects_upd_inv)
  with assms us(2) show ?thesis by simp
qed

lemma surfaced_info_delivered:
  assumes "t \<in> set (surfaced (InfoDelivered k) s)"
  shows "\<exists>l \<in> set (snd (stderr_loops s ! k)). keep_line l \<and> t = info_line l"
proof (cases "k < length (stderr_loops s)")
  case False
  with assms show ?thesis by (simp add: surfaced_def on_info_delivered_def)
next
  case True
  obtain sid rest where k: "stderr_loops s ! k = (sid, rest)" by (cases "stderr_loops s ! k")
  let ?s1 = "s\<lparr>stderr_loops := (stderr_loops s)[k := (sid, [])]\<rparr>"
  obtain us where us: "effects (stderr_loop sid rest ?s1) = effects ?s1 @ us"
    "\<forall>t \<in> set (update_texts us). \<exists>l \<in> set rest. keep_line l \<and> t = info_line l"
    using stderr_loop_effects by blast
  from True k us(1) have "surfaced (InfoDelivered k) s = update_texts us"
    by (simp add: surfaced_def on_info_delivered_def)
  with assms us(2) k show ?thesis by simp
qed

text \<open>
  C7, as amended: \<open>isSetupMessage\<close> is true exactly of the lines that match one of its nine
  setup patterns (it has no pattern for a debug tag or the log-flush notice), and the
  stream handlers do not consult it. What they do: every line of a text surfaced from
  standard output is a line of the chunk that contains neither "[DEBUG]" nor
  "Flushing log events", and every notification surfaced from standard error is
  "[INFO] ", such a line of the chunk, and a newline; so is every notification that a
  loop of the standard-error handler sends when it goes on after a delivery.
\<close>

theorem debug_lines_dropped_from_both_streams:
  "isSetupMessage line =
     (starts_with_ci ''qwen version'' line \<or> starts_with_ci ''loading...'' line \<or>
      starts_with_ci ''initializing...'' line \<or> starts_with_ci ''starting...'' line \<or>
      re_bracket_alone line \<or> re_empty_prompt line \<or> re_model line \<or>
      starts_with_ci ''Using model:'' line \<or> starts_with_ci ''Connected to'' line) \<and>
   (\<forall>t \<in> set (surfaced (StdoutData n data) s).
      list_all keep_line (split_lines t) \<and> set (split_lines t) \<subseteq> set (split_lines data)) \<and>
   (\<forall>t \<in> set (surfaced (StderrData n data) s).
      \<exists>l \<in> set (split_lines data). keep_line l \<and> t = info_line l) \<and>
   (\<forall>t \<in> set (surfaced (InfoDelivered k) s).
      \<exists>l \<in> set (snd (stderr_loops s ! k)). keep_line l \<and> t = info_line l)"
proof (intro conjI ballI)
  show "isSetupMessage line =
     (starts_with_ci ''qwen version'' line \<or> starts_with_ci ''loading...'' line \<or>
      starts_with_ci ''initializing...'' line \<or> starts_with_ci ''starting...'' line \<or>
      re_bracket_alone line \<or> re_empty_prompt line \<or> re_model line \<or>
      starts_with_ci ''Using model:'' line \<or> starts_with_ci ''Connected to'' line)"
    by (simp add: isSetupMessage_def setupPatterns_def)
next
  fix t assume "t \<in> set (surfaced (StdoutData n data) s)"
  then have t: "t = drop_debug_lines data" and ne: "trim (drop_debug_lines data) \<noteq> []"
    by (auto simp: surfaced_stdout split: if_splits)
  from ne have "drop_debug_lines data \<noteq> []" by (auto simp: trim_Nil)
  then have "split_lines t = filter keep_line (split_lines data)"
    unfolding t by (rule lines_of_drop_debug_lines)
  then show "list_all keep_line (split_lines t)" "set (split_lines t) \<subseteq> set (split_lines data)"
    by (auto simp: list_all_iff)
next
  fix t assume "t \<in> set (surfaced (StderrData n data) s)"
  then show "\<exists>l \<in> set (split_lines data). keep_line l \<and> t = info_line l"
    by (rule surfaced_stderr)
next
  fix t assume "t \<in> set (surfaced (InfoDelivered k) s)"
  then show "\<exists>l \<in> set (snd (stderr_loops s ! k)). keep_line l \<and> t = info_line l"
    by (rule surfaced_info_delivered)
qed

text \<open>
  C7 as stated fails on both counts: a version banner on standard output and a connection
  announcement on standard error are setup messages and are surfaced all the same, and
  \<open>isSetupMessage\<close> is false of a line with a debug tag and of the log-flush notice.
\<close>

theorem setup_lines_pass_and_debug_lines_are_no_setup_message:
  "isSetupMessage ''qwen version 1.0'' \<and>
   surfaced (StdoutData 0 ''qwen version 1.0\<newline>'')
     (run [NewSession ''s'' ''/w'', Prompt ''s'' [TextBlock ''hi''] True] (new_agent Map.empty))
     = [''qwen version 1.0\<newline>''] \<and>
   surfaced (StderrData 0 ''Connected to server\<newline>'')
     (run [NewSession ''s'' ''/w'', Prompt ''s'' [TextBlock ''hi''] True] (new_agent Map.empty))
     = [''[INFO] Connected to server\<newline>''] \<and>
   \<not> isSetupMessage ''[DEBUG] connecting to server'' \<and>
   \<not> isSetupMessage ''Flushing log events to Clearcut.''"
  by code_simp

text \<open>The amended C7 at the chunks "hello / [DEBUG] x / world" on standard output and
  "[DEBUG] x / boom" on standard error of a running process.\<close>

theorem debug_lines_dropped_witness:
  "list_all keep_line (split_lines ''hello\<newline>world\<newline>'') \<and>
   (\<exists>l \<in> set (split_lines ''[DEBUG] x\<newline>boom''). keep_line l \<and> ''[INFO] boom\<newline>'' = info_line l)"
proof -
  let ?s = "run [NewSession ''s'' ''/w'', Prompt ''s'' [TextBlock ''hi''] True]
              (new_agent Map.empty)"
  have a: "''hello\<newline>world\<newline>'' \<in> set (surfaced (StdoutData 0 ''hello\<newline>[DEBUG] x\<newline>world\<newline>'') ?s)"
    by code_simp
  have b: "''[INFO] boom\<newline>'' \<in> set (surfaced (StderrData 0 ''[DEBUG] x\<newline>boom'') ?s)"
    by code_simp
  note th = debug_lines_dropped_from_both_streams
  from th [of "[]" 0 "''hello\<newline>[DEBUG] x\<newline>world\<newline>''" ?s]
    th [of "[]" 0 "''[DEBUG] x\<newline>boom''" ?s] a b
  show ?thesis by blast
qed

section \<open>How the primitives change the state\<close>

lemma invocations_upd_session: "invocations (upd_session sid f s) = invocations s"
  by (simp add: upd_session_def split: option.splits)

lemma invocations_emit: "invocations (emit e s) = invocations s"
  by (simp add: emit_def)

lemma invocations_upd_inv:
  "invocations (upd_inv n f s) = (invocations s)[n := f (invocations s ! n)]"
  by (simp add: upd_inv_def list_update_beyond)

lemma invocations_settle:
  "invocations (settle n outcome s) =
     (invocations s)[n := (if promise (invocations s ! n) = Pending
                           then (invocations s ! n)\<lparr>promise := outcome\<rparr>
                           else invocations s ! n)]"
  by (simp add: settle_def invocations_upd_inv)

lemma invocations_kill:
  "invocations (kill p s) =
     (if p < length (invocations s) \<and> \<not> exited (invocations s ! p) \<and>
         \<not> spawn_failed (invocations s ! p)
      then (invocations s)[p := (invocations s ! p)\<lparr>killed := True\<rparr>]
      else invocations s)"
  by (simp add: kill_def invocations_emit invocations_upd_inv)

lemma invocations_cleanup:
  "invocations (cleanup n s) = (invocations s)[n := (invocations s ! n)\<lparr>abort_listener := False\<rparr>]"
  by (simp add: cleanup_def invocations_upd_session invocations_upd_inv)

lemmas invs = invocations_upd_session invocations_emit invocations_upd_inv invocations_settle
  invocations_kill invocations_cleanup

lemma on_exit_promise:
  assumes "n < length (invocations s)" "wired (invocations s ! n)"
    "\<not> exited (invocations s ! n)" "promise (invocations s ! n) = Pending"
  shows "promise (invocations (on_exit n code signal s) ! n) =
     exit_outcome (aborted (invocations s ! n)) code signal
       (outputBuffer (invocations s ! n)) (errorBuffer (invocations s ! n))"
  using assms by (simp add: on_exit_def Let_def invs)

lemma on_timeout_promise:
  assumes "n < length (invocations s)" "timer (invocations s ! n)"
    "\<not> aborted (invocations s ! n)" "\<not> killed (invocations s ! n)"
    "promise (invocations s ! n) = Pending"
  shows "promise (invocations (on_timeout n s) ! n) =
     timeout_outcome (outputBuffer (invocations s ! n))"
  using assms by (simp add: on_timeout_def Let_def invs)

section \<open>The invariant is kept by every event\<close>

lemma reachable_run: "reachable s \<Longrightarrow> reachable (run es s)"
proof (induction es arbitrary: s)
  case Nil
  then show ?case by (simp add: run_def)
next
  case (Cons e es)
  have "reachable (step e s)" using Cons.prems by (rule reachable.next_event)
  then have "reachable (run es (step e s))" by (rule Cons.IH)
  then show ?case by (simp add: run_def)
qed

lemma inv_ok_mid_ok: "inv_ok i \<Longrightarrow> mid_ok i"
  by (auto simp: inv_ok_def mid_ok_def split: settlement.splits)

lemma agent_ok_mid: "agent_ok s \<Longrightarrow> agent_mid_ok s"
  by (auto simp: agent_ok_def agent_mid_ok_def list_all_iff inv_ok_mid_ok)

lemma sessions_upd_inv: "sessions (upd_inv n f s) = sessions s"
  by (simp add: upd_inv_def)

lemma sessions_emit: "sessions (emit e s) = sessions s"
  by (simp add: emit_def)

lemma sessions_settle: "sessions (settle n outcome s) = sessions s"
  by (simp add: settle_def sessions_upd_inv)

lemma sessions_kill: "sessions (kill p s) = sessions s"
  by (simp add: kill_def sessions_emit sessions_upd_inv)

lemma sessions_upd_session:
  "sessions (upd_session sid f s) =
     (case sessions s sid of None \<Rightarrow> sessions s | Some d \<Rightarrow> (sessions s)(sid \<mapsto> f d))"
  by (simp add: upd_session_def split: option.splits)

lemmas sess = sessions_upd_inv sessions_emit sessions_settle sessions_kill

lemma owners_update:
  "session_of x = session_of (xs ! n) \<Longrightarrow> map session_of (xs[n := x]) = map session_of xs"
  by (metis list_update_id map_update)


lemma owners_upd_session: "owners (upd_session sid f s) = owners s"
  by (simp add: owners_def invocations_upd_session)

lemma owners_emit: "owners (emit e s) = owners s"
  by (simp add: owners_def invocations_emit)

lemma owners_upd_inv:
  "(\<And>i. session_of (f i) = session_of i) \<Longrightarrow> owners (upd_inv n f s) = owners s"
  by (simp add: owners_def invocations_upd_inv owners_update)

lemma owners_settle: "owners (settle n outcome s) = owners s"
  by (simp add: settle_def owners_upd_inv)

lemma owners_kill: "owners (kill p s) = owners s"
  by (simp add: kill_def owners_emit owners_upd_inv)

lemma sess_ok_same:
  "sess_ok s \<Longrightarrow> sessions s' = sessions s \<Longrightarrow> owners s' = owners s \<Longrightarrow> sess_ok s'"
  by (simp add: sess_ok_def)

lemma sess_ok_upd_session:
  assumes "sess_ok s"
    and "\<And>d. sessions s sid = Some d \<Longrightarrow> handles_ok sid d (owners s)
           \<Longrightarrow> handles_ok sid (f d) (owners s)"
  shows "sess_ok (upd_session sid f s)"
  using assms
  by (auto simp: sess_ok_def sessions_upd_session owners_upd_session split: option.splits)

lemma sess_ok_clear_process:
  "sess_ok s \<Longrightarrow> sess_ok (upd_session sid (\<lambda>d. d\<lparr>qwenProcess := None\<rparr>) s)"
  by (rule sess_ok_upd_session) (auto simp: handles_ok_def split: option.splits)

lemma sess_ok_clear_pending:
  "sess_ok s \<Longrightarrow> sess_ok (upd_session sid (\<lambda>d. d\<lparr>pendingPrompt := None\<rparr>) s)"
  by (rule sess_ok_upd_session) (auto simp: handles_ok_def split: option.splits)

lemma sess_ok_history:
  "sess_ok s \<Longrightarrow> sess_ok (upd_session sid (\<lambda>d. d\<lparr>conversationHistory := h d\<rparr>) s)"
  by (rule sess_ok_upd_session) (auto simp: handles_ok_def split: option.splits)

lemma sess_ok_emit: "sess_ok s \<Longrightarrow> sess_ok (emit e s)"
  by (erule sess_ok_same) (simp_all add: sessions_emit owners_emit)

lemma sess_ok_upd_inv:
  "sess_ok s \<Longrightarrow> (\<And>i. session_of (f i) = session_of i) \<Longrightarrow> sess_ok (upd_inv n f s)"
  by (erule sess_ok_same) (simp_all add: sessions_upd_inv owners_upd_inv)

lemma sess_ok_settle: "sess_ok s \<Longrightarrow> sess_ok (settle n outcome s)"
  by (erule sess_ok_same) (simp_all add: sessions_settle owners_settle)

lemma sess_ok_kill: "sess_ok s \<Longrightarrow> sess_ok (kill p s)"
  by (erule sess_ok_same) (simp_all add: sessions_kill owners_kill)

lemma sess_ok_cleanup: "sess_ok s \<Longrightarrow> sess_ok (cleanup n s)"
  by (simp add: cleanup_def sess_ok_clear_process sess_ok_upd_inv)

lemma sess_ok_sendSessionUpdate: "sess_ok s \<Longrightarrow> sess_ok (sendSessionUpdate sid t s)"
  by (simp add: sendSessionUpdate_def sess_ok_emit)

lemmas sess_oks = sess_ok_clear_process sess_ok_clear_pending sess_ok_history sess_ok_emit
  sess_ok_upd_inv sess_ok_settle sess_ok_kill sess_ok_cleanup sess_ok_sendSessionUpdate

lemma list_all_mid_update:
  assumes "list_all inv_ok xs" and "n < length xs \<Longrightarrow> inv_ok (xs ! n) \<Longrightarrow> mid_ok x"
  shows "list_all mid_ok (xs[n := x])"
  unfolding list_all_length
proof (intro allI impI)
  fix k assume k: "k < length (xs[n := x])"
  then have kx: "k < length xs" by simp
  have ik: "inv_ok (xs ! k)" using assms(1) kx by (simp add: list_all_length)
  show "mid_ok (xs[n := x] ! k)"
  proof (cases "k = n")
    case True
    then show ?thesis using assms(2) kx ik by simp
  next
    case False
    then show ?thesis using ik by (simp add: inv_ok_mid_ok)
  qed
qed

lemma invocations_sendSessionUpdate: "invocations (sendSessionUpdate sid t s) = invocations s"
  by (simp add: sendSessionUpdate_def invocations_emit)

lemma exit_outcome_settled: "exit_outcome a code signal out err \<noteq> Pending"
  by (simp add: exit_outcome_def Let_def)

lemma timeout_outcome_settled: "timeout_outcome out \<noteq> Pending"
  by (simp add: timeout_outcome_def Let_def)

lemma on_exit_ok: "agent_ok s \<Longrightarrow> agent_mid_ok (on_exit n code signal s)"
proof -
  assume ok: "agent_ok s"
  show ?thesis
  proof (cases "n < length (invocations s) \<and> wired (invocations s ! n) \<and> \<not> exited (invocations s ! n)")
    case False
    then show ?thesis using agent_ok_mid [OF ok] by (auto simp: on_exit_def)
  next
    case True
    have "sess_ok (on_exit n code signal s)"
      using ok True by (simp add: on_exit_def Let_def agent_ok_def sess_oks)
    moreover have "list_all mid_ok (invocations (on_exit n code signal s))"
      using ok True
      apply (simp add: on_exit_def Let_def agent_ok_def invs)
      apply (intro conjI impI list_all_mid_update)
      apply (auto simp: inv_ok_def mid_ok_def live_def exit_outcome_settled
          split: settlement.splits)
      done
    ultimately show ?thesis by (simp add: agent_mid_ok_def)
  qed
qed


lemma agent_mid_ok_same:
  "agent_mid_ok s \<Longrightarrow> invocations s' = invocations s \<Longrightarrow> sessions s' = sessions s
     \<Longrightarrow> agent_mid_ok s'"
  by (simp add: agent_mid_ok_def sess_ok_def owners_def)

lemma on_error_ok: "agent_ok s \<Longrightarrow> agent_mid_ok (on_error n msg s)"
proof -
  assume ok: "agent_ok s"
  show ?thesis
  proof (cases "n < length (invocations s) \<and> wired (invocations s ! n)")
    case False
    then show ?thesis using agent_ok_mid [OF ok] by (auto simp: on_error_def)
  next
    case True
    have "sess_ok (on_error n msg s)"
      using ok True by (simp add: on_error_def agent_ok_def sess_oks)
    moreover have "list_all mid_ok (invocations (on_error n msg s))"
      using ok True
      apply (simp add: on_error_def agent_ok_def invs)
      apply (intro conjI impI list_all_mid_update)
      apply (auto simp: inv_ok_def mid_ok_def live_def split: settlement.splits)
      done
    ultimately show ?thesis by (simp add: agent_mid_ok_def)
  qed
qed

lemma on_timeout_ok: "agent_ok s \<Longrightarrow> agent_mid_ok (on_timeout n s)"
proof -
  assume ok: "agent_ok s"
  show ?thesis
  proof (cases "n < length (invocations s) \<and> timer (invocations s ! n)")
    case False
    then show ?thesis using agent_ok_mid [OF ok] by (auto simp: on_timeout_def)
  next
    case True
    have "sess_ok (on_timeout n s)"
      using ok True by (simp add: on_timeout_def Let_def agent_ok_def sess_oks)
    moreover have "list_all mid_ok (invocations (on_timeout n s))"
      using ok True
      apply (simp add: on_timeout_def Let_def agent_ok_def invs)
      apply (intro conjI impI list_all_mid_update)
      apply (auto simp: inv_ok_def mid_ok_def live_def timeout_outcome_settled
          split: settlement.splits)
      done
    ultimately show ?thesis by (simp add: agent_mid_ok_def)
  qed
qed

lemma on_stdout_ok: "agent_ok s \<Longrightarrow> agent_mid_ok (on_stdout n data s)"
proof -
  assume ok: "agent_ok s"
  show ?thesis
  proof (cases "n < length (invocations s) \<and> wired (invocations s ! n)")
    case False
    then show ?thesis using agent_ok_mid [OF ok] by (auto simp: on_stdout_def)
  next
    case True
    have "sess_ok (on_stdout n data s)"
      using ok True by (simp add: on_stdout_def Let_def agent_ok_def sess_oks)
    moreover have "list_all mid_ok (invocations (on_stdout n data s))"
      using ok True
      apply (simp add: on_stdout_def Let_def agent_ok_def invs invocations_sendSessionUpdate)
      apply (intro conjI impI list_all_mid_update)
      apply (auto simp: inv_ok_def mid_ok_def live_def split: settlement.splits)
      done
    ultimately show ?thesis by (simp add: agent_mid_ok_def)
  qed
qed

lemma invocations_stderr_loop: "invocations (stderr_loop sid ls s) = invocations s"
  by (induction ls arbitrary: s) (simp_all add: Let_def invocations_sendSessionUpdate)

lemma sessions_stderr_loop: "sessions (stderr_loop sid ls s) = sessions s"
  by (induction ls arbitrary: s) (simp_all add: Let_def sendSessionUpdate_def sessions_emit)

lemma on_stderr_ok: "agent_ok s \<Longrightarrow> agent_mid_ok (on_stderr n data s)"
proof -
  assume ok: "agent_ok s"
  show ?thesis
  proof (cases "n < length (invocations s) \<and> wired (invocations s ! n)")
    case False
    then show ?thesis using agent_ok_mid [OF ok] by (auto simp: on_stderr_def)
  next
    case True
    let ?s1 = "upd_inv n (\<lambda>i. i\<lparr>errorBuffer := errorBuffer i @ data\<rparr>) s"
    have "sess_ok ?s1" using ok by (simp add: agent_ok_def sess_oks)
    moreover have "list_all mid_ok (invocations ?s1)"
      using ok True
      apply (simp add: agent_ok_def invs)
      apply (intro conjI impI list_all_mid_update)
      apply (auto simp: inv_ok_def mid_ok_def live_def split: settlement.splits)
      done
    ultimately have "agent_mid_ok ?s1" by (simp add: agent_mid_ok_def)
    then show ?thesis using True
      by (simp add: on_stderr_def)
         (erule agent_mid_ok_same, simp_all add: invocations_stderr_loop sessions_stderr_loop)
  qed
qed

lemma on_info_delivered_ok: "agent_ok s \<Longrightarrow> agent_mid_ok (on_info_delivered k s)"
proof -
  assume ok: "agent_ok s"
  show ?thesis
  proof (cases "k < length (stderr_loops s)")
    case False
    then show ?thesis using agent_ok_mid [OF ok] by (simp add: on_info_delivered_def)
  next
    case True
    obtain sid rest where k: "stderr_loops s ! k = (sid, rest)" by (cases "stderr_loops s ! k")
    show ?thesis
      using True k
      by (simp add: on_info_delivered_def)
         (rule agent_mid_ok_same [OF agent_ok_mid [OF ok]],
          simp_all add: invocations_stderr_loop sessions_stderr_loop)
  qed
qed

lemma spawn_failed_ok:
  "agent_ok s \<Longrightarrow> agent_ok (upd_inv n (\<lambda>i. i\<lparr>spawn_failed := True\<rparr>) s)"
proof -
  assume ok: "agent_ok s"
  have "sess_ok (upd_inv n (\<lambda>i. i\<lparr>spawn_failed := True\<rparr>) s)"
    using ok by (simp add: agent_ok_def sess_oks)
  moreover have "list_all inv_ok (invocations (upd_inv n (\<lambda>i. i\<lparr>spawn_failed := True\<rparr>) s))"
    unfolding list_all_length
  proof (intro allI impI)
    fix k assume "k < length (invocations (upd_inv n (\<lambda>i. i\<lparr>spawn_failed := True\<rparr>) s))"
    then have k: "k < length (invocations s)" by (simp add: invs)
    then have ik: "inv_ok (invocations s ! k)"
      using ok by (simp add: agent_ok_def list_all_length)
    have "inv_ok ((invocations s ! k)\<lparr>spawn_failed := True\<rparr>)"
      using ik by (auto simp: inv_ok_def live_def split: settlement.splits)
    with ik k show "inv_ok (invocations (upd_inv n (\<lambda>i. i\<lparr>spawn_failed := True\<rparr>) s) ! k)"
      by (cases "k = n") (simp_all add: invs)
  qed
  ultimately show ?thesis by (simp add: agent_ok_def)
qed

lemma finish_ok:
  assumes "agent_mid_ok s" "n < length (invocations s)" "promise (invocations s ! n) \<noteq> Pending"
    "reason \<noteq> cancelled"
  shows "agent_mid_ok (finish n reason s)"
proof -
  have "sess_ok (finish n reason s)"
    using assms by (simp add: finish_def agent_mid_ok_def sess_oks)
  moreover have "list_all mid_ok (invocations (finish n reason s))"
    using assms
    by (auto simp: finish_def agent_mid_ok_def invs list_all_length nth_list_update mid_ok_def
          split: settlement.splits)
  ultimately show ?thesis by (simp add: agent_mid_ok_def)
qed

lemma on_delivered_ok: "agent_ok s \<Longrightarrow> agent_mid_ok (on_delivered n s)"
proof -
  assume ok: "agent_ok s"
  show ?thesis
  proof (cases "n < length (invocations s) \<and> phase (invocations s ! n) = ReportingError")
    case False
    then show ?thesis using agent_ok_mid [OF ok] by (auto simp: on_delivered_def)
  next
    case True
    then have "inv_ok (invocations s ! n)" using ok by (simp add: agent_ok_def list_all_length)
    with True have "promise (invocations s ! n) \<noteq> Pending"
      by (auto simp: inv_ok_def live_def)
    with True show ?thesis
      by (simp add: on_delivered_def finish_ok agent_ok_mid [OF ok])
  qed
qed

lemma newSession_ok:
  assumes "agent_ok s" "sessions s sid = None"
  shows "agent_mid_ok (newSession sid dir s)"
  using agent_ok_mid [OF assms(1)] assms(2)
  by (auto simp: agent_mid_ok_def newSession_def sess_ok_def owners_def handles_ok_def)


lemma pending_handle:
  assumes "sess_ok s" "session_pending sid s = Some m"
  shows "m < length (invocations s)" "sid_of m s = sid"
    "session_process sid s = None \<or> session_process sid s = Some m"
proof -
  from assms(2) obtain d where d: "sessions s sid = Some d" "pendingPrompt d = Some m"
    by (auto simp: session_pending_def split: option.splits)
  from assms(1) d(1) have h: "handles_ok sid d (owners s)" by (simp add: sess_ok_def)
  from h d(2) show "m < length (invocations s)"
    by (simp add: handles_ok_def owners_def)
  from h d(2) show "sid_of m s = sid"
    by (auto simp: handles_ok_def owners_def sid_of_def)
  from h d show "session_process sid s = None \<or> session_process sid s = Some m"
    by (cases "qwenProcess d") (simp_all add: handles_ok_def session_process_def)
qed

lemma session_process_same:
  "sessions s' = sessions s \<Longrightarrow> session_process sid s' = session_process sid s"
  by (simp add: session_process_def)

lemma abort_ok:
  assumes ok: "agent_ok s" and pend: "session_pending sid s = Some m"
  shows "agent_mid_ok (abort m s) \<and> session_pending sid (abort m s) = Some m \<and>
         length (invocations (abort m s)) = length (invocations s) \<and>
         promise (invocations (abort m s) ! m) \<noteq> Pending"
proof -
  have so: "sess_ok s" and io: "list_all inv_ok (invocations s)"
    using ok by (simp_all add: agent_ok_def)
  note h = pending_handle [OF so pend]
  have im: "inv_ok (invocations s ! m)" using io h(1) by (simp add: list_all_length)
  have mid: "list_all mid_ok (invocations s)"
    using agent_ok_mid [OF ok] by (simp add: agent_mid_ok_def)
  show ?thesis
  proof (cases "aborted (invocations s ! m)")
    case True
    then have "abort m s = s" by (simp add: abort_def)
    moreover have "promise (invocations s ! m) \<noteq> Pending"
      using im True by (auto simp: inv_ok_def live_def)
    ultimately show ?thesis using agent_ok_mid [OF ok] pend by simp
  next
    case False
    let ?s1 = "upd_inv m (\<lambda>i. i\<lparr>aborted := True\<rparr>) s"
    have sid1: "sid_of m ?s1 = sid"
      using h(1,2) by (simp add: sid_of_def invs)
    have proc1: "session_process sid ?s1 = session_process sid s"
      by (rule session_process_same) (simp add: sess)
    show ?thesis
    proof (cases "abort_listener (invocations s ! m)")
      case no_listener: False
      then have eq: "abort m s = ?s1" using False h(1) by (simp add: abort_def Let_def)
      have np: "promise (invocations s ! m) \<noteq> Pending"
        using im no_listener by (auto simp: inv_ok_def live_def)
      have "phase (invocations s ! m) \<noteq> Awaiting"
        using im np by (auto simp: inv_ok_def split: settlement.splits)
      then have "list_all mid_ok (invocations ?s1)"
        using mid h(1) np
        by (auto simp: invs list_all_length nth_list_update mid_ok_def split: settlement.splits)
      moreover have "sess_ok ?s1" using so by (simp add: sess_oks)
      moreover have "session_pending sid ?s1 = Some m"
        using pend by (simp add: session_pending_def sess)
      ultimately show ?thesis using eq np h(1) by (simp add: agent_mid_ok_def invs)
    next
      case listener: True
      then have eq: "abort m s = abortHandler m ?s1"
        using False h(1) by (simp add: abort_def Let_def)
      have "sess_ok (abortHandler m ?s1)"
        using so by (simp add: abortHandler_def sess_oks split: option.splits)
      moreover have "session_pending sid (abortHandler m ?s1) = Some m"
        using pend
        by (simp add: abortHandler_def sid1 session_pending_def sess sessions_upd_session
              split: option.splits)
      moreover have "list_all mid_ok (invocations (abortHandler m ?s1)) \<and>
          length (invocations (abortHandler m ?s1)) = length (invocations s) \<and>
          promise (invocations (abortHandler m ?s1) ! m) \<noteq> Pending"
        using h(3)
      proof
        assume "session_process sid s = None"
        then show ?thesis
          using io h(1) im False
          apply (simp add: abortHandler_def sid1 proc1 invs)
          apply (intro conjI impI list_all_mid_update)
          apply (auto simp: inv_ok_def mid_ok_def live_def split: settlement.splits)
          done
      next
        assume "session_process sid s = Some m"
        then show ?thesis
          using io h(1) im False
          apply (simp add: abortHandler_def sid1 proc1 invs)
          apply (intro conjI impI list_all_mid_update)
          apply (auto simp: inv_ok_def mid_ok_def live_def split: settlement.splits)
          done
      qed
      ultimately show ?thesis using eq by (simp add: agent_mid_ok_def)
    qed
  qed
qed


lemma kill_settled_mid:
  assumes "list_all mid_ok (invocations s)" "promise (invocations s ! p) \<noteq> Pending"
  shows "list_all mid_ok (invocations (kill p s))"
  using assms
  by (auto simp: invs list_all_length nth_list_update mid_ok_def split: settlement.splits)

lemma cancelSession_ok:
  assumes ok: "agent_ok s" and r: "cancelSession sid s = Inr s'"
  shows "agent_mid_ok s'"
proof -
  from r obtain m where pend: "session_pending sid s = Some m"
    by (auto simp: cancelSession_def split: option.splits)
  let ?s1 = "abort m s"
  let ?s2 = "upd_session sid (\<lambda>d. d\<lparr>pendingPrompt := None\<rparr>) ?s1"
  note a = abort_ok [OF ok pend]
  have so1: "sess_ok ?s1" and mid1: "list_all mid_ok (invocations ?s1)"
    using a by (simp_all add: agent_mid_ok_def)
  have pend1: "session_pending sid ?s1 = Some m" using a by simp
  have settled: "promise (invocations ?s1 ! m) \<noteq> Pending" using a by simp
  have so2: "sess_ok ?s2" using so1 by (simp add: sess_oks)
  have mid2: "list_all mid_ok (invocations ?s2)" using mid1 by (simp add: invs)
  have proc2: "session_process sid ?s2 = session_process sid ?s1"
    by (auto simp: session_process_def sessions_upd_session split: option.splits)
  have s': "s' = (case session_process sid ?s2 of
                    Some p \<Rightarrow> upd_session sid (\<lambda>d. d\<lparr>qwenProcess := None\<rparr>) (kill p ?s2)
                  | None \<Rightarrow> ?s2)"
    using r pend by (simp add: cancelSession_def Let_def)
  from pending_handle(3) [OF so1 pend1] show ?thesis
  proof
    assume "session_process sid ?s1 = None"
    then show ?thesis using s' proc2 so2 mid2 by (simp add: agent_mid_ok_def)
  next
    assume p: "session_process sid ?s1 = Some m"
    have "list_all mid_ok (invocations (kill m ?s2))"
      using mid2 settled by (intro kill_settled_mid) (simp_all add: invs)
    then show ?thesis using s' proc2 p so2
      by (simp add: agent_mid_ok_def invs sess_oks)
  qed
qed

lemma handles_ok_append:
  "handles_ok sid d os \<Longrightarrow> handles_ok sid d (os @ [x])"
  by (auto simp: handles_ok_def nth_append split: option.splits)

lemma prompt_tail_ok:
  assumes mid: "agent_mid_ok t" and n: "n = length (invocations t)"
  shows "agent_mid_ok
    (processWithQwenCode n text streams
      (upd_session sid (\<lambda>d. d\<lparr>conversationHistory := conversationHistory d @ [h]\<rparr>)
        (upd_session sid (\<lambda>d. d\<lparr>pendingPrompt := Some n\<rparr>)
          (t\<lparr>invocations := invocations t @ [new_invocation sid]\<rparr>))))"
    (is "agent_mid_ok ?r")
proof -
  have so: "sess_ok t" and ml: "list_all mid_ok (invocations t)"
    using mid by (simp_all add: agent_mid_ok_def)
  have inv_r: "\<exists>x. invocations ?r = invocations t @ [x] \<and> mid_ok x \<and> session_of x = sid"
    using n
    by (cases "sessions t sid")
       (auto simp: processWithQwenCode_def Let_def sid_of_def invs upd_session_def
          new_invocation_def mid_ok_def live_def emit_def upd_inv_def settle_def)
  then obtain x where x: "invocations ?r = invocations t @ [x]" "mid_ok x" "session_of x = sid"
    by blast
  have ow: "owners ?r = owners t @ [sid]" using x by (simp add: owners_def)
  have ses: "sessions ?r =
      (case sessions t sid of
         None \<Rightarrow> sessions t
       | Some d \<Rightarrow> (sessions t)(sid \<mapsto>
           d\<lparr>pendingPrompt := Some n, conversationHistory := conversationHistory d @ [h],
             qwenProcess := Some n\<rparr>))"
    using n
    by (cases "sessions t sid")
       (auto simp: processWithQwenCode_def Let_def sid_of_def upd_session_def
          new_invocation_def emit_def upd_inv_def settle_def fun_eq_iff)
  have "sess_ok ?r"
    unfolding sess_ok_def
  proof (intro allI impI)
    fix sid' d' assume d': "sessions ?r sid' = Some d'"
    show "handles_ok sid' d' (owners ?r)"
    proof (cases "sid' = sid")
      case True
      with d' ses obtain d where "sessions t sid = Some d"
        and "d' = d\<lparr>pendingPrompt := Some n, conversationHistory := conversationHistory d @ [h],
             qwenProcess := Some n\<rparr>"
        by (cases "sessions t sid") (auto split: if_splits)
      then show ?thesis using True n ow
        by (simp add: handles_ok_def owners_def nth_append)
    next
      case False
      with d' ses have "sessions t sid' = Some d'"
        by (cases "sessions t sid") (auto split: if_splits)
      then have "handles_ok sid' d' (owners t)" using so by (simp add: sess_ok_def)
      then show ?thesis using ow by (simp add: handles_ok_append)
    qed
  qed
  moreover have "list_all mid_ok (invocations ?r)" using x ml by simp
  ultimately show ?thesis by (simp add: agent_mid_ok_def)
qed

lemma handlePrompt_ok:
  assumes ok: "agent_ok s"
  shows "agent_mid_ok (handlePrompt sid blocks streams s)"
proof (cases "session_pending sid s")
  case None
  then show ?thesis
    using prompt_tail_ok [OF agent_ok_mid [OF ok] refl]
    by (simp add: handlePrompt_def Let_def)
next
  case (Some m)
  then show ?thesis
    using prompt_tail_ok [OF conjunct1 [OF abort_ok [OF ok Some]] refl]
    by (simp add: handlePrompt_def Let_def)
qed


lemma invocations_resume:
  "invocations (resume n s) = (invocations s)[n := resumed (invocations s ! n)]"
proof (cases "n < length (invocations s)")
  case False
  then show ?thesis by (simp add: resume_def list_update_beyond)
next
  case True
  then show ?thesis
    by (auto simp: resume_def resumed_def finish_def invs invocations_sendSessionUpdate
          split: settlement.splits option.splits)
qed

lemma sess_ok_resume: "sess_ok s \<Longrightarrow> sess_ok (resume n s)"
  by (auto simp: resume_def finish_def sess_oks split: settlement.splits option.splits)

lemma sess_ok_foldl_resume: "sess_ok s \<Longrightarrow> sess_ok (foldl (\<lambda>t n. resume n t) s ns)"
  by (induction ns arbitrary: s) (simp_all add: sess_ok_resume)

lemma invocations_foldl_resume:
  "m \<le> length (invocations s) \<Longrightarrow>
   invocations (foldl (\<lambda>t n. resume n t) s [0..<m]) =
     map resumed (take m (invocations s)) @ drop m (invocations s)"
proof (induction m)
  case 0
  then show ?case by simp
next
  case (Suc m)
  let ?xs = "invocations s"
  let ?t = "foldl (\<lambda>t n. resume n t) s [0..<m]"
  from Suc have m: "m < length ?xs" by simp
  have t: "invocations ?t = map resumed (take m ?xs) @ drop m ?xs"
    using Suc by simp
  have len: "length (map resumed (take m ?xs)) = m" using m by simp
  have dr: "drop m ?xs = ?xs ! m # drop (Suc m) ?xs"
    using m by (simp add: Cons_nth_drop_Suc)
  have t': "invocations ?t = map resumed (take m ?xs) @ ?xs ! m # drop (Suc m) ?xs"
    using t dr by simp
  have nth: "invocations ?t ! m = ?xs ! m"
    using nth_append_length [of "map resumed (take m ?xs)" "?xs ! m" "drop (Suc m) ?xs"] m
    by (simp add: t' min_absorb2)
  have "invocations (resume m ?t) = (invocations ?t)[m := resumed (?xs ! m)]"
    by (simp add: invocations_resume nth)
  also have "\<dots> = map resumed (take m ?xs) @ (resumed (?xs ! m) # drop (Suc m) ?xs)"
    using list_update_length [of "map resumed (take m ?xs)" "?xs ! m" "drop (Suc m) ?xs"
        "resumed (?xs ! m)"] m
    by (simp add: t' min_absorb2)
  also have "\<dots> = map resumed (take (Suc m) ?xs) @ drop (Suc m) ?xs"
    using m by (simp add: take_Suc_conv_app_nth)
  finally show ?case by simp
qed

lemma invocations_drain: "invocations (drain s) = map resumed (invocations s)"
  by (simp add: drain_def invocations_foldl_resume)

lemma resumed_ok: "mid_ok i \<Longrightarrow> inv_ok (resumed i)"
  by (auto simp: mid_ok_def inv_ok_def resumed_def live_def split: settlement.splits)

lemma drain_ok: "agent_mid_ok s \<Longrightarrow> agent_ok (drain s)"
proof -
  assume mid: "agent_mid_ok s"
  then have "sess_ok (drain s)" by (simp add: agent_mid_ok_def drain_def sess_ok_foldl_resume)
  moreover have "list_all inv_ok (invocations (drain s))"
    using mid by (auto simp: agent_mid_ok_def invocations_drain list_all_iff resumed_ok)
  ultimately show ?thesis by (simp add: agent_ok_def)
qed

lemma deliver_ok: "agent_ok s \<Longrightarrow> agent_mid_ok (deliver e s)"
proof (cases e)
  case (NewSession sid dir)
  then show "agent_ok s \<Longrightarrow> ?thesis"
    by (auto simp: newSession_ok agent_ok_mid split: option.splits)
next
  case (Prompt sid blocks streams)
  then show "agent_ok s \<Longrightarrow> ?thesis"
    by (auto simp: prompt_def handlePrompt_ok agent_ok_mid split: option.splits)
next
  case (Cancel sid)
  then show "agent_ok s \<Longrightarrow> ?thesis"
    by (auto simp: cancel_def agent_ok_mid split: option.splits sum.splits
          intro: cancelSession_ok)
qed (simp_all add: on_stdout_ok on_stderr_ok on_exit_ok on_error_ok on_timeout_ok
       on_delivered_ok on_info_delivered_ok spawn_failed_ok)

lemma step_ok: "agent_ok s \<Longrightarrow> agent_ok (step e s)"
  by (simp add: step_def drain_ok deliver_ok)

lemma reachable_ok: "reachable s \<Longrightarrow> agent_ok s"
proof (induction rule: reachable.induct)
  case (start env)
  show ?case by (simp add: agent_ok_def new_agent_def sess_ok_def)
next
  case (next_event s e)
  then show ?case by (simp add: step_ok)
qed

lemma reachable_pending_live:
  assumes "reachable s" "n < length (invocations s)" "promise (invocations s ! n) = Pending"
  shows "live (invocations s ! n)"
  using reachable_ok [OF assms(1)] assms(2,3)
  by (auto simp: agent_ok_def list_all_length inv_ok_def)


text \<open>
  In no state that the agent reaches has \<open>handlePrompt\<close> returned "cancelled": a promise is
  only ever rejected while its signal is not aborted, and its continuation runs before
  the next request.
\<close>

lemma never_cancelled:
  assumes "reachable s" "n < length (invocations s)"
  shows "phase (invocations s ! n) \<noteq> Returned cancelled"
proof -
  have "inv_ok (invocations s ! n)"
    using reachable_ok [OF assms(1)] assms(2) by (simp add: agent_ok_def list_all_length)
  then show ?thesis
    by (cases "promise (invocations s ! n)") (auto simp: inv_ok_def live_def)
qed

section \<open>The arguments of the spawned process\<close>

lemma effects_upd_session: "effects (upd_session sid f s) = effects s"
  by (simp add: upd_session_def split: option.splits)

lemma effects_settle: "effects (settle n outcome s) = effects s"
  by (simp add: settle_def effects_upd_inv)

lemma effects_emit: "effects (emit e s) = effects s @ [e]"
  by (simp add: emit_def)

lemma session_cwd_upd_session:
  "(\<And>d. cwd (f d) = cwd d) \<Longrightarrow> session_cwd sid (upd_session sid' f s) = session_cwd sid s"
  by (auto simp: session_cwd_def sessions_upd_session split: option.splits)

lemma session_cwd_same: "sessions s' = sessions s \<Longrightarrow> session_cwd sid s' = session_cwd sid s"
  by (simp add: session_cwd_def)

lemma session_cwd_abort: "session_cwd sid (abort m s) = session_cwd sid s"
  by (auto simp: abort_def abortHandler_def Let_def session_cwd_upd_session
        session_cwd_same [OF sessions_settle] session_cwd_same [OF sessions_kill]
        session_cwd_same [OF sessions_upd_inv] split: option.splits)

lemma processWithQwenCode_effects:
  assumes "n < length (invocations s)" "\<not> aborted (invocations s ! n)"
    "sid_of n s = sid" "session_cwd sid s = Some dir"
  shows "effects (processWithQwenCode n text streams s) =
     effects s @ [Spawn n (executablePath (config s)) (buildQwenArgs (config s) text) dir]"
  using assms
  by (auto simp: processWithQwenCode_def Let_def effects_upd_session effects_settle
        effects_emit effects_upd_inv sess session_cwd_def split: option.splits)

text \<open>
  A prompt on a registered session spawns the process, as its last effect, with the
  configured executable, the arguments that \<open>buildQwenArgs\<close> builds from the configuration
  and the flattened prompt, and the working directory of the session.
\<close>

lemma prompt_spawns_with_built_arguments:
  assumes "sessions s sid = Some d"
  shows "\<exists>pre n. effects (deliver (Prompt sid blocks streams) s) =
     pre @ [Spawn n (executablePath (config s))
              (buildQwenArgs (config s) (convertPromptToText blocks)) (cwd d)]"
proof -
  define s1 where "s1 = (case session_pending sid s of Some m \<Rightarrow> abort m s | None \<Rightarrow> s)"
  have c1: "config s1 = config s"
    by (simp add: s1_def config_abort split: option.splits)
  have "session_cwd sid s1 = session_cwd sid s"
    by (simp add: s1_def session_cwd_abort split: option.splits)
  then have d1: "session_cwd sid s1 = Some (cwd d)"
    using assms by (simp add: session_cwd_def)
  let ?n = "length (invocations s1)"
  let ?s4 = "upd_session sid
                 (\<lambda>d. d\<lparr>conversationHistory := conversationHistory d @
                            [''User: '' @ convertPromptToText blocks]\<rparr>)
                 (upd_session sid (\<lambda>d. d\<lparr>pendingPrompt := Some ?n\<rparr>)
                    (s1\<lparr>invocations := invocations s1 @ [new_invocation sid]\<rparr>))"
  have "session_cwd sid ?s4 = Some (cwd d)"
    using d1 by (simp add: session_cwd_upd_session) (simp add: session_cwd_def)
  moreover have "?n < length (invocations ?s4)" "\<not> aborted (invocations ?s4 ! ?n)"
    "sid_of ?n ?s4 = sid"
    by (simp_all add: invocations_upd_session sid_of_def new_invocation_def)
  ultimately have "effects (processWithQwenCode ?n (convertPromptToText blocks) streams ?s4) =
      effects ?s4 @ [Spawn ?n (executablePath (config ?s4))
        (buildQwenArgs (config ?s4) (convertPromptToText blocks)) (cwd d)]"
    by (intro processWithQwenCode_effects)
  moreover have "config ?s4 = config s" using c1 by (simp add: config_upd_session)
  moreover have "deliver (Prompt sid blocks streams) s =
      processWithQwenCode ?n (convertPromptToText blocks) streams ?s4"
    using assms by (simp add: prompt_def handlePrompt_def Let_def s1_def)
  ultimately show ?thesis by auto
qed

lemma spawn_args_append: "spawn_args (xs @ ys) = spawn_args xs @ spawn_args ys"
  by (induction xs rule: spawn_args.induct) simp_all

lemma effects_kill: "\<exists>ks. effects (kill p s) = effects s @ ks \<and> spawn_args ks = []"
  by (simp add: kill_def effects_emit effects_upd_inv)

lemma effects_abort: "\<exists>ks. effects (abort m s) = effects s @ ks \<and> spawn_args ks = []"
proof -
  have k: "\<And>p t. \<exists>ks. effects (kill p t) = effects t @ ks \<and> spawn_args ks = []"
    by (rule effects_kill)
  show ?thesis
    using k [of _ "upd_inv m (\<lambda>i. i\<lparr>aborted := True\<rparr>) s"]
    by (auto simp: abort_def abortHandler_def Let_def effects_settle effects_upd_session
          effects_upd_inv split: option.splits)
qed

lemma spawned_prompt:
  assumes "sessions s sid = Some d"
  shows "spawned (Prompt sid blocks streams) s =
     [buildQwenArgs (config s) (convertPromptToText blocks)]"
proof -
  define s1 where "s1 = (case session_pending sid s of Some m \<Rightarrow> abort m s | None \<Rightarrow> s)"
  have c1: "config s1 = config s"
    by (simp add: s1_def config_abort split: option.splits)
  obtain ks where ks: "effects s1 = effects s @ ks" "spawn_args ks = []"
    using effects_abort [of _ s] by (cases "session_pending sid s") (auto simp: s1_def)
  have "session_cwd sid s1 = session_cwd sid s"
    by (simp add: s1_def session_cwd_abort split: option.splits)
  then have d1: "session_cwd sid s1 = Some (cwd d)"
    using assms by (simp add: session_cwd_def)
  let ?n = "length (invocations s1)"
  let ?s4 = "upd_session sid
                 (\<lambda>d. d\<lparr>conversationHistory := conversationHistory d @
                            [''User: '' @ convertPromptToText blocks]\<rparr>)
                 (upd_session sid (\<lambda>d. d\<lparr>pendingPrompt := Some ?n\<rparr>)
                    (s1\<lparr>invocations := invocations s1 @ [new_invocation sid]\<rparr>))"
  have "session_cwd sid ?s4 = Some (cwd d)"
    using d1 by (simp add: session_cwd_upd_session) (simp add: session_cwd_def)
  moreover have "?n < length (invocations ?s4)" "\<not> aborted (invocations ?s4 ! ?n)"
    "sid_of ?n ?s4 = sid"
    by (simp_all add: invocations_upd_session sid_of_def new_invocation_def)
  ultimately have "effects (processWithQwenCode ?n (convertPromptToText blocks) streams ?s4) =
      effects ?s4 @ [Spawn ?n (executablePath (config ?s4))
        (buildQwenArgs (config ?s4) (convertPromptToText blocks)) (cwd d)]"
    by (intro processWithQwenCode_effects)
  moreover have "config ?s4 = config s" using c1 by (simp add: config_upd_session)
  moreover have "effects ?s4 = effects s @ ks" using ks(1) by (simp add: effects_upd_session)
  moreover have "deliver (Prompt sid blocks streams) s =
      processWithQwenCode ?n (convertPromptToText blocks) streams ?s4"
    using assms by (simp add: prompt_def handlePrompt_def Let_def s1_def)
  ultimately show ?thesis using ks(2) by (simp add: spawned_def spawn_args_append)
qed

text \<open>
  C9: a prompt on a registered session spawns one process, and the argument list passed
  to it is \<open>--prompt\<close> and the flattened prompt text, followed by nothing when the
  configured mode is "default", by \<open>--yolo\<close> when it is "bypassPermissions" and by
  \<open>--approval-mode auto_edit\<close> when it is "acceptEdits"; and \<open>buildQwenArgs\<close> builds these lists
  for every prompt text.
\<close>

theorem spawned_arguments_by_mode:
  assumes "sessions s sid = Some d"
  shows "(permissionMode (config s) = ''default'' \<longrightarrow>
            spawned (Prompt sid blocks streams) s = [[''--prompt'', convertPromptToText blocks]]) \<and>
         (permissionMode (config s) = ''bypassPermissions'' \<longrightarrow>
            spawned (Prompt sid blocks streams) s
              = [[''--prompt'', convertPromptToText blocks, ''--yolo'']]) \<and>
         (permissionMode (config s) = ''acceptEdits'' \<longrightarrow>
            spawned (Prompt sid blocks streams) s
              = [[''--prompt'', convertPromptToText blocks, ''--approval-mode'', ''auto_edit'']]) \<and>
         buildQwenArgs (cfg\<lparr>permissionMode := ''default''\<rparr>) text = [''--prompt'', text] \<and>
         buildQwenArgs (cfg\<lparr>permissionMode := ''bypassPermissions''\<rparr>) text
           = [''--prompt'', text, ''--yolo''] \<and>
         buildQwenArgs (cfg\<lparr>permissionMode := ''acceptEdits''\<rparr>) text
           = [''--prompt'', text, ''--approval-mode'', ''auto_edit'']"
  by (simp add: spawned_prompt [OF assms] buildQwenArgs_def)

text \<open>C9 at three concrete agents, one for each configured mode, with one session and the
  prompt "hi".\<close>

theorem spawned_arguments_by_mode_witness:
  "spawned (Prompt ''s'' [TextBlock ''hi''] True)
     (run [NewSession ''s'' ''/w''] (new_agent Map.empty)) = [[''--prompt'', ''hi'']] \<and>
   spawned (Prompt ''s'' [TextBlock ''hi''] True)
     (run [NewSession ''s'' ''/w'']
        (new_agent [''ACP_PERMISSION_MODE'' \<mapsto> ''bypassPermissions'']))
     = [[''--prompt'', ''hi'', ''--yolo'']] \<and>
   spawned (Prompt ''s'' [TextBlock ''hi''] True)
     (run [NewSession ''s'' ''/w''] (new_agent [''ACP_PERMISSION_MODE'' \<mapsto> ''acceptEdits'']))
     = [[''--prompt'', ''hi'', ''--approval-mode'', ''auto_edit'']]"
proof -
  let ?a = "run [NewSession ''s'' ''/w''] (new_agent Map.empty)"
  let ?b = "run [NewSession ''s'' ''/w'']
              (new_agent [''ACP_PERMISSION_MODE'' \<mapsto> ''bypassPermissions''])"
  let ?c = "run [NewSession ''s'' ''/w''] (new_agent [''ACP_PERMISSION_MODE'' \<mapsto> ''acceptEdits''])"
  have "sessions ?a ''s'' \<noteq> None" "sessions ?b ''s'' \<noteq> None" "sessions ?c ''s'' \<noteq> None"
    by code_simp+
  then obtain da db dc where d: "sessions ?a ''s'' = Some da" "sessions ?b ''s'' = Some db"
    "sessions ?c ''s'' = Some dc"
    by auto
  have m: "permissionMode (config ?a) = ''default''"
    "permissionMode (config ?b) = ''bypassPermissions''"
    "permissionMode (config ?c) = ''acceptEdits''"
    by code_simp+
  have t: "convertPromptToText [TextBlock ''hi''] = ''hi''" by code_simp
  from spawned_arguments_by_mode [OF d(1), of "[TextBlock ''hi'']" True]
    spawned_arguments_by_mode [OF d(2), of "[TextBlock ''hi'']" True]
    spawned_arguments_by_mode [OF d(3), of "[TextBlock ''hi'']" True]
  show ?thesis by (simp add: m t)
qed


text \<open>
  C10, as amended: take a prompt and insert a marker \<open>[ACP:PERMISSION:w]\<close> (\<open>w\<close> one or more
  word characters) into one of its text segments, at a point that no marker spans (no
  match of the marker pattern in the segment starts before the point and ends behind it).
  Then the process is spawned with the same argument list with and without the marker.
  For any two prompts the arguments after \<open>--prompt\<close> and the text are the same: they come
  from the configuration alone, \<open>extractPermissionMode\<close> plays no part, and no event
  changes the configuration.
\<close>

theorem marker_insertion_leaves_arguments:
  assumes "w \<noteq> []" "list_all is_word w" "\<not> spans a b" "sessions s sid = Some d"
  shows "spawned (Prompt sid (pre @ TextBlock (a @ ''[ACP:PERMISSION:'' @ w @ '']'' @ b) # post)
                    streams) s
         = spawned (Prompt sid (pre @ TextBlock (a @ b) # post) streams) s \<and>
         map (drop 2) (spawned (Prompt sid p streams) s)
           = map (drop 2) (spawned (Prompt sid q streams) s) \<and>
         config (step e s) = config s"
proof (intro conjI)
  have "strip_markers (a @ ''[ACP:PERMISSION:'' @ w @ '']'' @ b) = strip_markers (a @ b)"
    using strip_markers_insert [OF assms(1,2), of a b] strip_markers_no_span [OF assms(3)]
    by simp
  then have "cleanPromptText (a @ ''[ACP:PERMISSION:'' @ w @ '']'' @ b) = cleanPromptText (a @ b)"
    by (simp only: cleanPromptText_def)
  then have "convertPromptToText (pre @ TextBlock (a @ ''[ACP:PERMISSION:'' @ w @ '']'' @ b) # post)
      = convertPromptToText (pre @ TextBlock (a @ b) # post)"
    by (rule convertPromptToText_cong)
  then show "spawned (Prompt sid (pre @ TextBlock (a @ ''[ACP:PERMISSION:'' @ w @ '']'' @ b) # post)
                    streams) s
         = spawned (Prompt sid (pre @ TextBlock (a @ b) # post) streams) s"
    by (simp only: spawned_prompt [OF assms(4)])
next
  show "map (drop 2) (spawned (Prompt sid p streams) s)
           = map (drop 2) (spawned (Prompt sid q streams) s)"
    by (simp add: spawned_prompt [OF assms(4)] buildQwenArgs_def)
next
  show "config (step e s) = config s" by (rule config_step)
qed

text \<open>The amended C10 at a concrete prompt: the marker between "please " and " go".\<close>

theorem marker_insertion_witness:
  "spawned (Prompt ''s'' [TextBlock ''please [ACP:PERMISSION:BYPASS] go''] True)
     (run [NewSession ''s'' ''/w''] (new_agent Map.empty))
   = [[''--prompt'', ''please  go'']]"
proof -
  let ?s = "run [NewSession ''s'' ''/w''] (new_agent Map.empty)"
  have w: "''BYPASS'' \<noteq> []" "list_all is_word ''BYPASS''"
    by (simp_all add: is_word_def)
  have n: "\<not> spans ''please '' '' go''" by code_simp
  have "sessions ?s ''s'' \<noteq> None" by code_simp
  then obtain d where d: "sessions ?s ''s'' = Some d" by auto
  have v: "spawned (Prompt ''s'' [TextBlock ''please  go''] True) ?s = [[''--prompt'', ''please  go'']]"
    by code_simp
  from marker_insertion_leaves_arguments [OF w n d, of "[]" "[]" True] v
  show ?thesis by simp
qed


section \<open>Exit and timeout of the process\<close>

lemma promise_resumed: "promise (resumed i) = promise i"
  by (simp add: resumed_def split: settlement.splits)

lemma promise_drain:
  "n < length (invocations s) \<Longrightarrow>
   promise (invocations (drain s) ! n) = promise (invocations s ! n)"
  by (simp add: invocations_drain promise_resumed)

lemma length_on_exit: "length (invocations (on_exit n code signal s)) = length (invocations s)"
  by (simp add: on_exit_def Let_def invs)

lemma length_on_timeout: "length (invocations (on_timeout n s)) = length (invocations s)"
  by (simp add: on_timeout_def Let_def invs)

text \<open>
  C4, as amended: when the process of an activation whose promise is pending (so that it
  has not been cancelled) exits with a code \<open>c\<close> other than 0, the promise is rejected with
  "Qwen Code failed: " followed by the accumulated standard error, trimmed and otherwise
  as it is, or by "Process exited with code c" when the trimmed standard error is empty.
\<close>

theorem exit_nonzero_failure_message:
  assumes "reachable s" "n < length (invocations s)" "promise (invocations s ! n) = Pending"
    and "c \<noteq> 0"
  shows "promise (invocations (step (Exit n (ExitCode c)) s) ! n) =
     Rejected (''Qwen Code failed: '' @
       (if trim (errorBuffer (invocations s ! n)) \<noteq> []
        then trim (errorBuffer (invocations s ! n))
        else ''Process exited with code '' @ show_code (Some c)))"
proof -
  have l: "live (invocations s ! n)" using assms(1-3) by (rule reachable_pending_live)
  then have w: "wired (invocations s ! n)" "\<not> exited (invocations s ! n)"
    "\<not> aborted (invocations s ! n)"
    by (simp_all add: live_def)
  have "promise (invocations (on_exit n (Some c) None s) ! n) =
      exit_outcome False (Some c) None (outputBuffer (invocations s ! n))
        (errorBuffer (invocations s ! n))"
    using on_exit_promise [OF assms(2) w(1,2) assms(3)] w(3) by simp
  then show ?thesis
    using assms(2,4)
    by (simp add: step_def promise_drain length_on_exit code_of_def signal_of_def
          exit_outcome_def Let_def truthy_def)
qed

text \<open>
  C6, as amended: when the process of an activation whose promise is pending (it has
  neither been cancelled nor timed out) exits with code 0 and its accumulated standard
  output, without the lines that contain "[DEBUG]" or "Flushing log events" (no other
  noise criterion is applied) and trimmed, is empty, the promise is resolved with exactly
  "Request completed successfully.".
\<close>

theorem exit_zero_empty_output_fallback:
  assumes "reachable s" "n < length (invocations s)" "promise (invocations s ! n) = Pending"
    and "trim (drop_debug_lines (outputBuffer (invocations s ! n))) = []"
  shows "promise (invocations (step (Exit n (ExitCode 0)) s) ! n) =
     Resolved (Some ''Request completed successfully.'')"
proof -
  have l: "live (invocations s ! n)" using assms(1-3) by (rule reachable_pending_live)
  then have w: "wired (invocations s ! n)" "\<not> exited (invocations s ! n)"
    "\<not> aborted (invocations s ! n)"
    by (simp_all add: live_def)
  have "promise (invocations (on_exit n (Some 0) None s) ! n) =
      exit_outcome False (Some 0) None (outputBuffer (invocations s ! n))
        (errorBuffer (invocations s ! n))"
    using on_exit_promise [OF assms(2) w(1,2) assms(3)] w(3) by simp
  then show ?thesis
    using assms(2,4)
    by (simp add: step_def promise_drain length_on_exit code_of_def signal_of_def
          exit_outcome_def Let_def truthy_def)
qed

text \<open>
  C5, as amended: when the timeout of an activation fires while its promise is pending
  (the process has not exited and the prompt has not been cancelled), the promise is
  resolved with the accumulated standard output without the lines that contain "[DEBUG]"
  or "Flushing log events" (no other noise criterion is applied), trimmed, when that is
  not empty, and rejected with the timeout error when it is.
\<close>

theorem timeout_partial_output_or_failure:
  assumes "reachable s" "n < length (invocations s)" "promise (invocations s ! n) = Pending"
  shows "promise (invocations (step (Timeout n) s) ! n) =
     (if trim (drop_debug_lines (outputBuffer (invocations s ! n))) \<noteq> []
      then Resolved (Some (trim (drop_debug_lines (outputBuffer (invocations s ! n)))))
      else Rejected ''Timeout waiting for response from Qwen Code'')"
proof -
  have l: "live (invocations s ! n)" using assms(1-3) by (rule reachable_pending_live)
  then have w: "timer (invocations s ! n)" "\<not> aborted (invocations s ! n)"
    "\<not> killed (invocations s ! n)"
    by (simp_all add: live_def)
  have "promise (invocations (on_timeout n s) ! n) =
      timeout_outcome (outputBuffer (invocations s ! n))"
    by (rule on_timeout_promise [OF assms(2) w assms(3)])
  then show ?thesis
    using assms(2)
    by (simp add: step_def promise_drain length_on_timeout timeout_outcome_def Let_def
          truthy_def)
qed

text \<open>The amended C4 at a concrete state: standard error "[DEBUG] trace / boom", exit
  code 1.\<close>

theorem exit_nonzero_failure_message_witness:
  "promise (invocations (step (Exit 0 (ExitCode 1))
       (run [NewSession ''s'' ''/w'', Prompt ''s'' [TextBlock ''hi''] True,
             StderrData 0 ''[DEBUG] trace\<newline>boom\<newline>''] (new_agent Map.empty))) ! 0)
   = Rejected ''Qwen Code failed: [DEBUG] trace\<newline>boom''"
proof -
  let ?s = "run [NewSession ''s'' ''/w'', Prompt ''s'' [TextBlock ''hi''] True,
             StderrData 0 ''[DEBUG] trace\<newline>boom\<newline>''] (new_agent Map.empty)"
  have r: "reachable ?s" by (rule reachable_run) (rule reachable.start)
  have n: "0 < length (invocations ?s)" by code_simp
  have p: "promise (invocations ?s ! 0) = Pending" by code_simp
  have c: "(1::int) \<noteq> 0" by simp
  have e: "trim (errorBuffer (invocations ?s ! 0)) = ''[DEBUG] trace\<newline>boom''" by code_simp
  from exit_nonzero_failure_message [OF r n p c] show ?thesis by (simp add: e)
qed

text \<open>
  C4 as stated fails: with "[DEBUG] trace / boom" on standard error and exit code 1, the
  error message carries the debug line, while the filter that the agent applies to its
  output leaves "boom" only.
\<close>

theorem failure_message_keeps_debug_lines:
  "promise (invocations
       (run [NewSession ''s'' ''/w'', Prompt ''s'' [TextBlock ''hi''] True,
             StderrData 0 ''[DEBUG] trace\<newline>boom\<newline>'', Exit 0 (ExitCode 1)]
          (new_agent Map.empty)) ! 0)
   = Rejected ''Qwen Code failed: [DEBUG] trace\<newline>boom'' \<and>
   trim (drop_debug_lines ''[DEBUG] trace\<newline>boom\<newline>'') = ''boom'' \<and>
   \<not> isSetupMessage ''boom''"
  by code_simp

text \<open>
  C6 as stated fails: "Loading..." is a progress line, and without the noise lines the
  output of the process is empty; the process exits with code 0 and the promise is
  resolved with "Loading...", not with the fallback text.
\<close>

theorem exit_zero_resolves_with_progress_line:
  "isSetupMessage ''Loading...'' \<and>
   trim (join_lines (filter (\<lambda>l. \<not> isSetupMessage l \<and> keep_line l)
                       (split_lines ''Loading...\<newline>''))) = [] \<and>
   promise (invocations
       (run [NewSession ''s'' ''/w'', Prompt ''s'' [TextBlock ''hi''] True,
             StdoutData 0 ''Loading...\<newline>'', Exit 0 (ExitCode 0)] (new_agent Map.empty)) ! 0)
   = Resolved (Some ''Loading...'')"
  by code_simp

text \<open>The amended C6 at a concrete state: the process has printed a debug line only and exits with
  code 0.\<close>

theorem exit_zero_empty_output_fallback_witness:
  "promise (invocations (step (Exit 0 (ExitCode 0))
       (run [NewSession ''s'' ''/w'', Prompt ''s'' [TextBlock ''hi''] True,
             StdoutData 0 ''[DEBUG] started\<newline>''] (new_agent Map.empty))) ! 0)
   = Resolved (Some ''Request completed successfully.'')"
proof -
  let ?s = "run [NewSession ''s'' ''/w'', Prompt ''s'' [TextBlock ''hi''] True,
             StdoutData 0 ''[DEBUG] started\<newline>''] (new_agent Map.empty)"
  have r: "reachable ?s" by (rule reachable_run) (rule reachable.start)
  have n: "0 < length (invocations ?s)" by code_simp
  have p: "promise (invocations ?s ! 0) = Pending" by code_simp
  have e: "trim (drop_debug_lines (outputBuffer (invocations ?s ! 0))) = []" by code_simp
  from exit_zero_empty_output_fallback [OF r n p e] show ?thesis .
qed

text \<open>
  C5 as stated fails: the version banner is a noise line, and without the noise lines the
  output of the process is empty; the timeout fires and the promise is resolved with the
  banner, not rejected with the timeout error.
\<close>

theorem timeout_resolves_with_setup_banner:
  "isSetupMessage ''qwen version 1.0'' \<and>
   trim (join_lines (filter (\<lambda>l. \<not> isSetupMessage l \<and> keep_line l)
                       (split_lines ''qwen version 1.0\<newline>''))) = [] \<and>
   promise (invocations
       (run [NewSession ''s'' ''/w'', Prompt ''s'' [TextBlock ''hi''] True,
             StdoutData 0 ''qwen version 1.0\<newline>'', Timeout 0] (new_agent Map.empty)) ! 0)
   = Resolved (Some ''qwen version 1.0'')"
  by code_simp

text \<open>The amended C5 at two concrete states: the timeout fires after one chunk of output, and after
  a debug line only.\<close>

theorem timeout_partial_output_or_failure_witness:
  "promise (invocations (step (Timeout 0)
       (run [NewSession ''s'' ''/w'', Prompt ''s'' [TextBlock ''hi''] True,
             StdoutData 0 ''working\<newline>[DEBUG] x\<newline>''] (new_agent Map.empty))) ! 0)
   = Resolved (Some ''working'') \<and>
   promise (invocations (step (Timeout 0)
       (run [NewSession ''s'' ''/w'', Prompt ''s'' [TextBlock ''hi''] True,
             StdoutData 0 ''[DEBUG] x\<newline>''] (new_agent Map.empty))) ! 0)
   = Rejected ''Timeout waiting for response from Qwen Code''"
proof -
  let ?s = "run [NewSession ''s'' ''/w'', Prompt ''s'' [TextBlock ''hi''] True,
             StdoutData 0 ''working\<newline>[DEBUG] x\<newline>''] (new_agent Map.empty)"
  let ?t = "run [NewSession ''s'' ''/w'', Prompt ''s'' [TextBlock ''hi''] True,
             StdoutData 0 ''[DEBUG] x\<newline>''] (new_agent Map.empty)"
  have rs: "reachable ?s" by (rule reachable_run) (rule reachable.start)
  have ns: "0 < length (invocations ?s)" by code_simp
  have ps: "promise (invocations ?s ! 0) = Pending" by code_simp
  have es: "trim (drop_debug_lines (outputBuffer (invocations ?s ! 0))) = ''working''"
    by code_simp
  have rt: "reachable ?t" by (rule reachable_run) (rule reachable.start)
  have nt: "0 < length (invocations ?t)" by code_simp
  have pt: "promise (invocations ?t ! 0) = Pending" by code_simp
  have et: "trim (drop_debug_lines (outputBuffer (invocations ?t ! 0))) = []" by code_simp
  from timeout_partial_output_or_failure [OF rs ns ps]
    timeout_partial_output_or_failure [OF rt nt pt]
  show ?thesis by (simp add: es et)
qed

section \<open>Cancellation and preemption\<close>

text \<open>
  C1, at a failing input: a session is created, a prompt is started and has streamed one
  chunk, so that its activation waits for the promise and its controller is the active
  cancellation handle of the session; then the client cancels. The abort handler resolves
  the promise with \<open>null\<close> instead of rejecting it, so \<open>handlePrompt\<close> leaves through the end of
  its \<open>try\<close> block: the stop reason is "end_turn", not "cancelled". No assistant turn is
  appended and both handles are null afterwards, as the claim says.
\<close>

theorem cancel_mid_stream_returns_end_turn:
  "phase (invocations (run [NewSession ''s'' ''/w'', Prompt ''s'' [TextBlock ''hi''] True,
       StdoutData 0 ''partial\<newline>''] (new_agent Map.empty)) ! 0) = Awaiting \<and>
   session_pending ''s'' (run [NewSession ''s'' ''/w'', Prompt ''s'' [TextBlock ''hi''] True,
       StdoutData 0 ''partial\<newline>''] (new_agent Map.empty)) = Some 0 \<and>
   phase (invocations (run [NewSession ''s'' ''/w'', Prompt ''s'' [TextBlock ''hi''] True,
       StdoutData 0 ''partial\<newline>'', Cancel ''s''] (new_agent Map.empty)) ! 0)
     = Returned end_turn \<and>
   session_history ''s'' (run [NewSession ''s'' ''/w'', Prompt ''s'' [TextBlock ''hi''] True,
       StdoutData 0 ''partial\<newline>'', Cancel ''s''] (new_agent Map.empty)) = [''User: hi''] \<and>
   session_pending ''s'' (run [NewSession ''s'' ''/w'', Prompt ''s'' [TextBlock ''hi''] True,
       StdoutData 0 ''partial\<newline>'', Cancel ''s''] (new_agent Map.empty)) = None \<and>
   session_process ''s'' (run [NewSession ''s'' ''/w'', Prompt ''s'' [TextBlock ''hi''] True,
       StdoutData 0 ''partial\<newline>'', Cancel ''s''] (new_agent Map.empty)) = None"
  by code_simp

text \<open>
  C2, at a failing input: three prompts A, B and C arrive on one session, each while the
  one before is in flight. B preempts A as the claim says (A's process is killed before
  B's is spawned), but A's \<open>finally\<close> block then clears the cancellation handle that B has
  installed. So C finds no handle to abort: B's promise stays pending, B's process is
  neither aborted nor sent a signal, and C's process is spawned beside it.
\<close>

theorem third_prompt_does_not_cancel_second:
  "promise (invocations (run [NewSession ''s'' ''/w'', Prompt ''s'' [TextBlock ''A''] True,
       Prompt ''s'' [TextBlock ''B''] True] (new_agent Map.empty)) ! 1) = Pending \<and>
   effects (run [NewSession ''s'' ''/w'', Prompt ''s'' [TextBlock ''A''] True,
       Prompt ''s'' [TextBlock ''B''] True, Prompt ''s'' [TextBlock ''C''] True]
       (new_agent Map.empty))
     = [Spawn 0 ''qwen'' [''--prompt'', ''A''] ''/w'', Kill 0,
        Spawn 1 ''qwen'' [''--prompt'', ''B''] ''/w'',
        Spawn 2 ''qwen'' [''--prompt'', ''C''] ''/w''] \<and>
   map (\<lambda>i. (promise i, aborted i, killed i, exited i))
     (invocations (run [NewSession ''s'' ''/w'', Prompt ''s'' [TextBlock ''A''] True,
       Prompt ''s'' [TextBlock ''B''] True, Prompt ''s'' [TextBlock ''C''] True]
       (new_agent Map.empty)))
     = [(Resolved None, True, True, False), (Pending, False, False, False),
        (Pending, False, False, False)]"
  by code_simp

text \<open>
  C3, at a failing input: after prompt B has preempted prompt A, the state between two
  events has the process handle of B on the session and no cancellation handle: A's
  \<open>finally\<close> block has cleared the one that B installed.
\<close>

theorem process_handle_without_cancellation_handle:
  "reachable (run [NewSession ''s'' ''/w'', Prompt ''s'' [TextBlock ''A''] True,
       Prompt ''s'' [TextBlock ''B''] True] (new_agent Map.empty)) \<and>
   session_process ''s'' (run [NewSession ''s'' ''/w'', Prompt ''s'' [TextBlock ''A''] True,
       Prompt ''s'' [TextBlock ''B''] True] (new_agent Map.empty)) = Some 1 \<and>
   session_pending ''s'' (run [NewSession ''s'' ''/w'', Prompt ''s'' [TextBlock ''A''] True,
       Prompt ''s'' [TextBlock ''B''] True] (new_agent Map.empty)) = None"
proof -
  let ?s = "run [NewSession ''s'' ''/w'', Prompt ''s'' [TextBlock ''A''] True,
       Prompt ''s'' [TextBlock ''B''] True] (new_agent Map.empty)"
  have "reachable ?s" by (rule reachable_run) (rule reachable.start)
  moreover have "session_process ''s'' ?s = Some 1" by code_simp
  moreover have "session_pending ''s'' ?s = None" by code_simp
  ultimately show ?thesis by simp
qed

end
